theory Spec2Isabelle
  imports Main
begin

section \<open>Strings and JSON values\<close>

text \<open>
  The validator of \<^verbatim>\<open>src/lib/workflows/workflow-validator.ts\<close> works on parsed JSON/YAML
  documents and on JavaScript strings. Strings are modelled as \<^typ>\<open>string\<close> (one
  \<^typ>\<open>char\<close> per code unit; the regular expressions of the source only distinguish ASCII
  classes). JSON numbers are modelled as integers, rendered in decimal; no statement below
  depends on how a number is rendered. An object is the list of its properties in
  enumeration order, with distinct names.
\<close>

datatype json =
    JNull
  | JBool bool
  | JNum int
  | JStr string
  | JArr "json list"
  | JObj "(string \<times> json) list"

text \<open>\<^verbatim>\<open>Array.prototype.join\<close> on strings.\<close>

fun join :: "string \<Rightarrow> string list \<Rightarrow> string" where
  "join sep [] = []"
| "join sep [x] = x"
| "join sep (x # y # ys) = x @ sep @ join sep (y # ys)"

definition digit_char :: "nat \<Rightarrow> char" where
  "digit_char d = char_of (48 + d)"

text \<open>Decimal rendering of a non-negative integer, as a template literal renders an index.\<close>

fun show_nat :: "nat \<Rightarrow> string" where
  "show_nat n = (if n < 10 then [digit_char n] else show_nat (n div 10) @ [digit_char (n mod 10)])"

declare show_nat.simps [simp del]

definition show_int :: "int \<Rightarrow> string" where
  "show_int i = (if i < 0 then CHR ''-'' # show_nat (nat (- i)) else show_nat (nat i))"

text \<open>Inverse reading of a decimal rendering (used to show that the rendering is injective).\<close>

definition digits_val :: "string \<Rightarrow> nat" where
  "digits_val s = foldl (\<lambda>a c. 10 * a + (of_char c - 48)) 0 s"

text \<open>\<^verbatim>\<open>String.prototype.includes\<close>: the fragment occurs as a contiguous substring.\<close>

fun str_includes :: "string \<Rightarrow> string \<Rightarrow> bool" where
  "str_includes [] frag = (frag = [])"
| "str_includes (c # cs) frag = (take (length frag) (c # cs) = frag \<or> str_includes cs frag)"

text \<open>\<^verbatim>\<open>String.prototype.split\<close> on a one-character separator: always at least one part.\<close>

fun split :: "char \<Rightarrow> string \<Rightarrow> string list" where
  "split sep [] = [[]]"
| "split sep (c # cs) =
     (if c = sep then [] # split sep cs
      else (case split sep cs of [] \<Rightarrow> [[c]] | p # ps \<Rightarrow> (c # p) # ps))"

subsection \<open>\<^verbatim>\<open>JSON.stringify\<close>\<close>

definition dq :: string where
  "dq = [CHR 0x22]"

definition hex_char :: "nat \<Rightarrow> char" where
  "hex_char n = (if n < 10 then char_of (48 + n) else char_of (87 + n))"

text \<open>Quoting of one code unit inside a JSON string (ECMAScript \<^verbatim>\<open>QuoteJSONString\<close>).\<close>

definition quote_char :: "char \<Rightarrow> string" where
  "quote_char c =
     (if c = CHR 0x22 then [CHR 0x5C, CHR 0x22]
      else if c = CHR 0x5C then [CHR 0x5C, CHR 0x5C]
      else if c = CHR 0x08 then [CHR 0x5C, CHR ''b'']
      else if c = CHR 0x0C then [CHR 0x5C, CHR ''f'']
      else if c = CHR 0x0A then [CHR 0x5C, CHR ''n'']
      else if c = CHR 0x0D then [CHR 0x5C, CHR ''r'']
      else if c = CHR 0x09 then [CHR 0x5C, CHR ''t'']
      else if (of_char c :: nat) < 32
        then [CHR 0x5C, CHR ''u'', CHR ''0'', CHR ''0'',
              hex_char (of_char c div 16), hex_char (of_char c mod 16)]
      else [c])"

definition quote_string :: "string \<Rightarrow> string" where
  "quote_string s = dq @ concat (map quote_char s) @ dq"

fun JSON_stringify :: "json \<Rightarrow> string"
  and stringify_elems :: "json list \<Rightarrow> string list"
  and stringify_members :: "(string \<times> json) list \<Rightarrow> string list" where
  "JSON_stringify JNull = ''null''"
| "JSON_stringify (JBool b) = (if b then ''true'' else ''false'')"
| "JSON_stringify (JNum n) = show_int n"
| "JSON_stringify (JStr s) = quote_string s"
| "JSON_stringify (JArr xs) = ''['' @ join '','' (stringify_elems xs) @ '']''"
| "JSON_stringify (JObj kvs) = ''{'' @ join '','' (stringify_members kvs) @ ''}''"
| "stringify_elems [] = []"
| "stringify_elems (x # xs) = JSON_stringify x # stringify_elems xs"
| "stringify_members [] = []"
| "stringify_members (kv # kvs) =
     (quote_string (fst kv) @ '':'' @ JSON_stringify (snd kv)) # stringify_members kvs"


subsection \<open>Values inside template literals\<close>

text \<open>
  \<^verbatim>\<open>`${x}`\<close> applies \<^verbatim>\<open>ToString\<close>: a missing value prints as \<^verbatim>\<open>undefined\<close>, an
  array prints its elements joined by commas (\<^verbatim>\<open>null\<close> elements as the empty string), an
  object prints as \<^verbatim>\<open>[object Object]\<close>.
\<close>

fun js_String :: "json \<Rightarrow> string"
  and js_elems :: "json list \<Rightarrow> string list" where
  "js_String JNull = ''null''"
| "js_String (JBool b) = (if b then ''true'' else ''false'')"
| "js_String (JNum n) = show_int n"
| "js_String (JStr s) = s"
| "js_String (JArr xs) = join '','' (js_elems xs)"
| "js_String (JObj kvs) = ''[object Object]''"
| "js_elems [] = []"
| "js_elems (x # xs) = (if x = JNull then [] else js_String x) # js_elems xs"

definition tpl :: "json option \<Rightarrow> string" where
  "tpl v = (case v of None \<Rightarrow> ''undefined'' | Some x \<Rightarrow> js_String x)"

definition tpl_str :: "string option \<Rightarrow> string" where
  "tpl_str v = (case v of None \<Rightarrow> ''undefined'' | Some x \<Rightarrow> x)"

definition js_typeof :: "json option \<Rightarrow> string" where
  "js_typeof v =
     (case v of
        None \<Rightarrow> ''undefined''
      | Some (JBool b) \<Rightarrow> ''boolean''
      | Some (JNum n) \<Rightarrow> ''number''
      | Some (JStr s) \<Rightarrow> ''string''
      | Some _ \<Rightarrow> ''object'')"

section \<open>The compiled schema validators (AJV)\<close>

text \<open>
  The schemas of \<^verbatim>\<open>./workflow-schema\<close> and the AJV library are not part of the sources at
  hand; the four compiled validators are therefore a parameter. A compiled validator is
  called on a value, returns a boolean and leaves its list of violations (or \<^verbatim>\<open>null\<close>) in
  its own \<^verbatim>\<open>errors\<close> property, which is module-level mutable state. Of the parameters
  of a violation, the record keeps those that \<^verbatim>\<open>formatAjvErrors\<close> reads, each optional;
  \<^verbatim>\<open>allowedValues\<close> is an array, as AJV's \<^verbatim>\<open>enum\<close> keyword reports it.
\<close>

record ajv_params =
  missingProperty :: "json option"
  param_type :: "json option"
  allowedValues :: "json list option"
  pattern :: "json option"
  limit :: "json option"
  allowedValue :: "json option"

record ErrorObject =
  instancePath :: string
  error_keyword :: string
  error_message :: "string option"
  error_params :: ajv_params
  error_data :: "json option"

datatype validator =
    ValidateWorkflow
  | ValidateChatInputTrigger
  | ValidateCronTrigger
  | ValidateChatTrigger

type_synonym ajv = "validator \<Rightarrow> json \<Rightarrow> bool \<times> ErrorObject list option"

type_synonym ajv_store = "validator \<Rightarrow> ErrorObject list option"

definition call_validator :: "ajv \<Rightarrow> validator \<Rightarrow> json \<Rightarrow> ajv_store \<Rightarrow> bool \<times> ajv_store" where
  "call_validator compiled v data st = (fst (compiled v data), st(v := snd (compiled v data)))"

section \<open>Validation results\<close>

record ValidationError =
  path :: string
  message :: string
  keyword :: string
  params :: "ajv_params option"
  suggestion :: "string option"

record ValidationResult =
  valid :: bool
  errors :: "ValidationError list"

definition bs :: string where
  "bs = [CHR 0x5C]"

definition module_path_pattern :: string where
  "module_path_pattern = ''^[a-z-]+'' @ bs @ ''.[a-z-]+'' @ bs @ ''.[a-zA-Z]+$''"

definition template_pattern :: string where
  "template_pattern = ''^'' @ bs @ ''{'' @ bs @ ''{[^}]+'' @ bs @ ''}'' @ bs @ ''}$''"

text \<open>The body of the \<^verbatim>\<open>errors.map\<close> callback of \<^verbatim>\<open>formatAjvErrors\<close>.\<close>

definition format_error :: "ErrorObject \<Rightarrow> ValidationError" where
  "format_error error =
     (let p = (if instancePath error = [] then ''root'' else instancePath error);
          message0 = (case error_message error of
                        None \<Rightarrow> ''Validation failed''
                      | Some m \<Rightarrow> if m = [] then ''Validation failed'' else m);
          ps = error_params error;
          k = error_keyword error;
          (msg, sugg) =
            (if k = ''required'' then
               (''Missing required field: '' @ tpl (missingProperty ps),
                Some (''Add '' @ dq @ tpl (missingProperty ps) @ dq @ '' to the object''))
             else if k = ''type'' then
               (''Expected type '' @ dq @ tpl (param_type ps) @ dq @ '' but got '' @ dq
                  @ js_typeof (error_data error) @ dq,
                Some (''Change value to type '' @ tpl (param_type ps)))
             else if k = ''enum'' then
               (''Value must be one of: ''
                  @ (case allowedValues ps of
                       None \<Rightarrow> ''undefined''
                     | Some vs \<Rightarrow> join '', '' (js_elems vs)),
                Some ''Use one of the allowed values'')
             else if k = ''pattern'' then
               (''Value does not match pattern: '' @ tpl (pattern ps),
                if pattern ps = Some (JStr module_path_pattern) then
                  Some (''Use format: category.module.function (e.g., '' @ dq
                          @ ''ai.openai.generateText'' @ dq @ '')'')
                else if pattern ps = Some (JStr template_pattern) then
                  Some (''Use format: {{variableName}} (e.g., '' @ dq @ ''{{result}}'' @ dq @ '')'')
                else None)
             else if k = ''minItems'' then
               (''Array must have at least '' @ tpl (limit ps) @ '' items'',
                Some ''Add more items to the array'')
             else if k = ''minLength'' then
               (''String must be at least '' @ tpl (limit ps) @ '' characters'',
                Some ''Use a longer string'')
             else if k = ''maxLength'' then
               (''String must be at most '' @ tpl (limit ps) @ '' characters'',
                Some ''Use a shorter string'')
             else if k = ''const'' then
               (''Value must be exactly: '' @ tpl (allowedValue ps),
                Some (''Change to '' @ dq @ tpl (allowedValue ps) @ dq))
             else (message0, None))
      in \<lparr>path = p, message = msg, keyword = k, params = Some ps, suggestion = sugg\<rparr>)"

definition formatAjvErrors :: "ErrorObject list option \<Rightarrow> ValidationError list" where
  "formatAjvErrors errs =
     (case errs of
        None \<Rightarrow> []
      | Some es \<Rightarrow> if length es = 0 then [] else map format_error es)"

section \<open>Schema validation\<close>

definition validateWorkflowStructure ::
  "ajv \<Rightarrow> json \<Rightarrow> ajv_store \<Rightarrow> ValidationResult \<times> ajv_store" where
  "validateWorkflowStructure compiled workflow st =
     (let (ok, st') = call_validator compiled ValidateWorkflow workflow st
      in if \<not> ok
         then (\<lparr>valid = False, errors = formatAjvErrors (st' ValidateWorkflow)\<rparr>, st')
         else (\<lparr>valid = True, errors = []\<rparr>, st'))"

record Trigger =
  trigger_type :: string
  trigger_config :: json

definition validateTrigger ::
  "ajv \<Rightarrow> Trigger \<Rightarrow> ajv_store \<Rightarrow> ValidationResult \<times> ajv_store" where
  "validateTrigger compiled trigger st =
     (let triggerValidator =
            (if trigger_type trigger = ''chat-input'' then Some ValidateChatInputTrigger
             else if trigger_type trigger = ''cron'' then Some ValidateCronTrigger
             else if trigger_type trigger = ''chat'' then Some ValidateChatTrigger
             else None)
      in case triggerValidator of
           None \<Rightarrow> (\<lparr>valid = True, errors = []\<rparr>, st)
         | Some tv \<Rightarrow>
             (let (ok, st') = call_validator compiled tv (trigger_config trigger) st
              in if \<not> ok
                 then (\<lparr>valid = False, errors = formatAjvErrors (st' tv)\<rparr>, st')
                 else (\<lparr>valid = True, errors = []\<rparr>, st')))"

section \<open>Capability paths\<close>

text \<open>
  The catalog returned by \<^verbatim>\<open>getModuleRegistry()\<close> (\<^verbatim>\<open>./module-registry\<close>, not part of
  the sources at hand) is a parameter: a list of categories, each with its modules, each
  with its functions.
\<close>

record FunctionEntry =
  fn_name :: string
  description :: string
  signature :: string

record ModuleEntry =
  mod_name :: string
  mod_functions :: "FunctionEntry list"

record Category =
  cat_name :: string
  cat_modules :: "ModuleEntry list"

record Step =
  step_id :: string
  step_module :: string
  inputs :: "(string \<times> json) list"
  outputAs :: "string option"

definition validPaths :: "Category list \<Rightarrow> string set" where
  "validPaths registry =
     set (concat (map (\<lambda>category.
            concat (map (\<lambda>module.
              map (\<lambda>fn. cat_name category @ ''.'' @ mod_name module @ ''.'' @ fn_name fn)
                  (mod_functions module))
              (cat_modules category)))
            registry))"

text \<open>The suggestion computed for a step whose path is not in the set (lines 181 to 199).\<close>

definition module_suggestion :: "Category list \<Rightarrow> string \<Rightarrow> string" where
  "module_suggestion registry module =
     (let parts = split CHR ''.'' module;
          categoryName = (case parts of [] \<Rightarrow> None | c # _ \<Rightarrow> Some c);
          moduleName = (case parts of _ # m # _ \<Rightarrow> Some m | _ \<Rightarrow> None)
      in case find (\<lambda>c. Some (cat_name c) = categoryName) registry of
           None \<Rightarrow>
             ''Category '' @ dq @ tpl_str categoryName @ dq @ '' not found. Available: ''
               @ join '', '' (map cat_name registry)
         | Some category \<Rightarrow>
             (case find (\<lambda>m. Some (mod_name m) = moduleName) (cat_modules category) of
                None \<Rightarrow>
                  ''Module '' @ dq @ tpl_str moduleName @ dq @ '' not found in category '' @ dq
                    @ tpl_str categoryName @ dq @ ''. Available: ''
                    @ join '', '' (map mod_name (cat_modules category))
              | Some foundModule \<Rightarrow>
                  ''Function not found in '' @ tpl_str categoryName @ ''.'' @ tpl_str moduleName
                    @ ''. Available: '' @ join '', '' (map fn_name (mod_functions foundModule))))"

definition module_error :: "Category list \<Rightarrow> Step \<Rightarrow> ValidationError" where
  "module_error registry step =
     \<lparr>path = ''/config/steps/'' @ step_id step @ ''/module'',
      message = ''Module path '' @ dq @ step_module step @ dq @ '' not found in registry'',
      keyword = ''module-exists'',
      params = None,
      suggestion = Some (module_suggestion registry (step_module step))\<rparr>"

definition validateModulePaths :: "Category list \<Rightarrow> Step list \<Rightarrow> ValidationResult" where
  "validateModulePaths registry steps =
     (let errs = foldl (\<lambda>errs step.
                    if step_module step \<notin> validPaths registry
                    then errs @ [module_error registry step] else errs) [] steps
      in \<lparr>valid = (length errs = 0), errors = errs\<rparr>)"


section \<open>Variable references\<close>

subsection \<open>The two regular expressions\<close>

text \<open>\<^verbatim>\<open>\w\<close> is \<^verbatim>\<open>[A-Za-z0-9_]\<close> and \<^verbatim>\<open>\d\<close> is \<^verbatim>\<open>[0-9]\<close> (no \<^verbatim>\<open>i\<close> or \<^verbatim>\<open>u\<close> flag).\<close>

definition is_digit :: "char \<Rightarrow> bool" where
  "is_digit c = (48 \<le> (of_char c :: nat) \<and> (of_char c :: nat) \<le> 57)"

definition is_word :: "char \<Rightarrow> bool" where
  "is_word c =
     (let n = (of_char c :: nat)
      in (48 \<le> n \<and> n \<le> 57) \<or> (65 \<le> n \<and> n \<le> 90) \<or> n = 95 \<or> (97 \<le> n \<and> n \<le> 122))"

text \<open>
  \<^verbatim>\<open>(?:\.\w+)*\<close> run at the start of a string: the text consumed and the rest. An
  iteration that cannot be completed consumes nothing.
\<close>

function dotted :: "string \<Rightarrow> string \<times> string" where
  "dotted s =
     (case s of
        [] \<Rightarrow> ([], s)
      | c # r \<Rightarrow>
          if c = CHR ''.'' \<and> takeWhile is_word r \<noteq> []
          then (let (d, rest) = dotted (dropWhile is_word r)
                in (c # takeWhile is_word r @ d, rest))
          else ([], s))"
  by pat_completeness auto
termination
  by (relation "measure length") (auto simp: le_imp_less_Suc length_dropWhile_le)

declare dotted.simps [simp del]

text \<open>\<^verbatim>\<open>(?:\[\d+\])*\<close> run at the start of a string.\<close>

function indexed :: "string \<Rightarrow> string \<times> string" where
  "indexed s =
     (case s of
        [] \<Rightarrow> ([], s)
      | c # r \<Rightarrow>
          if c = CHR ''['' \<and> takeWhile is_digit r \<noteq> []
          then (case dropWhile is_digit r of
                  [] \<Rightarrow> ([], s)
                | c' # r' \<Rightarrow>
                    if c' = CHR '']''
                    then (let (i, rest) = indexed r'
                          in (c # takeWhile is_digit r @ c' # i, rest))
                    else ([], s))
          else ([], s))"
  by pat_completeness auto
termination
proof (relation "measure length", goal_cases)
  case 1
  show ?case by simp
next
  case (2 s c r c' r')
  have "length (dropWhile is_digit r) \<le> length r"
    by (rule length_dropWhile_le)
  with 2 show ?case by simp
qed

declare indexed.simps [simp del]

text \<open>
  \<^verbatim>\<open>/\{\{(\w+)(?:\.\w+)*(?:\[\d+\])*\}\}/\<close> tried at the start of a string: the matched
  text, if any. Each quantifier takes all it can; that no shorter choice could succeed
  where this one fails is part of \<open>ref_match_iff\<close> below.
\<close>

definition ref_match :: "string \<Rightarrow> string option" where
  "ref_match s =
     (case s of
        c1 # c2 # r \<Rightarrow>
          if c1 = CHR ''{'' \<and> c2 = CHR ''{'' \<and> takeWhile is_word r \<noteq> []
          then (let (d, r1) = dotted (dropWhile is_word r);
                    (i, r2) = indexed r1
                in case r2 of
                     e1 # e2 # _ \<Rightarrow>
                       if e1 = CHR ''}'' \<and> e2 = CHR ''}''
                       then Some (''{{'' @ takeWhile is_word r @ d @ i @ ''}}'')
                       else None
                   | _ \<Rightarrow> None)
          else None
      | _ \<Rightarrow> None)"

text \<open>
  \<^verbatim>\<open>inputsStr.match(/.../g) || []\<close>: all matches from left to right, each search starting
  where the previous match ended (one further on after an empty match).
\<close>

function global_match :: "string \<Rightarrow> string list" where
  "global_match s =
     (if s = [] then []
      else case ref_match s of
             None \<Rightarrow> global_match (tl s)
           | Some m \<Rightarrow> m # global_match (drop (max 1 (length m)) s))"
  by pat_completeness auto
termination
  by (relation "measure length") auto

declare global_match.simps [simp del]

text \<open>
  \<^verbatim>\<open>ref.match(/\{\{(\w+)/)?.[1]\<close>: the first capture group of the leftmost match, or
  \<^verbatim>\<open>undefined\<close>.
\<close>

fun varName :: "string \<Rightarrow> string option" where
  "varName [] = None"
| "varName (c # cs) =
     (case cs of
        c2 # r \<Rightarrow>
          if c = CHR ''{'' \<and> c2 = CHR ''{'' \<and> takeWhile is_word r \<noteq> []
          then Some (takeWhile is_word r)
          else varName cs
      | [] \<Rightarrow> varName cs)"

subsection \<open>The walk over the steps\<close>

definition unbound_error :: "nat \<Rightarrow> string \<Rightarrow> ValidationError" where
  "unbound_error index v =
     \<lparr>path = ''/config/steps/'' @ show_nat index @ ''/inputs'',
      message = ''Reference to undeclared variable: '' @ v,
      keyword = ''variable-declared'',
      params = None,
      suggestion = Some (''Declare '' @ dq @ v @ dq @ '' in a previous step using '' @ dq
                          @ ''outputAs'' @ dq @ '', or check for typos'')\<rparr>"

text \<open>The body of the \<^verbatim>\<open>varRefs.forEach\<close> callback.\<close>

definition check_ref :: "nat \<Rightarrow> string set \<Rightarrow> ValidationError list \<Rightarrow> string \<Rightarrow> ValidationError list" where
  "check_ref index declaredVars errs ref =
     (case varName ref of
        None \<Rightarrow> errs
      | Some v \<Rightarrow> if v \<noteq> [] \<and> v \<notin> declaredVars then errs @ [unbound_error index v] else errs)"

text \<open>The body of the \<^verbatim>\<open>steps.forEach\<close> callback, on the pair of the two mutated locals.\<close>

definition var_step ::
  "ValidationError list \<times> string set \<Rightarrow> nat \<times> Step \<Rightarrow> ValidationError list \<times> string set" where
  "var_step acc ix =
     (let (errs, declaredVars) = acc;
          (index, step) = ix;
          inputsStr = JSON_stringify (JObj (inputs step));
          varRefs = global_match inputsStr;
          errs' = foldl (check_ref index declaredVars) errs varRefs;
          declaredVars' = (case outputAs step of
                             None \<Rightarrow> declaredVars
                           | Some out \<Rightarrow> if out \<noteq> [] then insert out declaredVars else declaredVars)
      in (errs', declaredVars'))"

definition var_walk :: "Step list \<Rightarrow> ValidationError list \<times> string set" where
  "var_walk steps = foldl var_step ([], {''user'', ''trigger''}) (enumerate 0 steps)"

definition validateVariableReferences :: "Step list \<Rightarrow> ValidationResult" where
  "validateVariableReferences steps =
     (let errs = fst (var_walk steps)
      in \<lparr>valid = (length errs = 0), errors = errs\<rparr>)"

section \<open>Output display\<close>

record Column =
  key :: string
  label :: string

record OutputDisplay =
  display_type :: string
  columns :: "Column list option"

definition singleValueModules :: "string list" where
  "singleValueModules =
     [''average'', ''sum'', ''count'', ''min'', ''max'', ''hashSHA256'', ''generateUUID'', ''now'',
      ''toISO'']"

definition table_columns_error :: ValidationError where
  "table_columns_error =
     \<lparr>path = ''/config/outputDisplay/columns'',
      message = ''Table display requires columns array'',
      keyword = ''table-columns'',
      params = None,
      suggestion = Some ''Add columns array with at least one column definition''\<rparr>"

definition output_type_mismatch_error :: ValidationError where
  "output_type_mismatch_error =
     \<lparr>path = ''/config/outputDisplay/type'',
      message = ''Last step likely returns single value, but output display is '' @ dq
                  @ ''table'' @ dq @ '' (expects array)'',
      keyword = ''output-type-mismatch'',
      params = None,
      suggestion = Some (''Change outputDisplay.type to '' @ dq @ ''text'' @ dq @ '' or '' @ dq
                          @ ''json'' @ dq @ '', or ensure last step returns an array'')\<rparr>"

definition validateOutputDisplay :: "OutputDisplay option \<Rightarrow> Step option \<Rightarrow> ValidationResult" where
  "validateOutputDisplay outputDisplay lastStep =
     (case (outputDisplay, lastStep) of
        (Some od, Some ls) \<Rightarrow>
          (let errs0 = [];
               errs1 = (if display_type od = ''table''
                           \<and> (case columns od of None \<Rightarrow> True | Some cols \<Rightarrow> length cols = 0)
                        then errs0 @ [table_columns_error] else errs0);
               errs2 = (if display_type od = ''table''
                           \<and> list_ex (\<lambda>md. str_includes (step_module ls) md) singleValueModules
                        then errs1 @ [output_type_mismatch_error] else errs1)
           in \<lparr>valid = (length errs2 = 0), errors = errs2\<rparr>)
      | _ \<Rightarrow> \<lparr>valid = True, errors = []\<rparr>)"

section \<open>Complete validation\<close>

text \<open>
  \<^verbatim>\<open>validateWorkflowComplete\<close> takes a value of type \<^verbatim>\<open>unknown\<close> and, once the schema
  has accepted it, asserts the type
  \<^verbatim>\<open>{trigger?: {type, config}, config: {steps: Array<{id, module, inputs, outputAs?}>,
  outputDisplay?: {type, columns?}}}\<close>. The assertion is modelled by a reading of the document
  at that type; a document that is not of that type has no reading.
\<close>

record Workflow =
  trigger :: "Trigger option"
  config_steps :: "Step list"
  config_outputDisplay :: "OutputDisplay option"

definition obj_get :: "string \<Rightarrow> json \<Rightarrow> json option" where
  "obj_get k v = (case v of JObj kvs \<Rightarrow> map_of kvs k | _ \<Rightarrow> None)"

definition as_step :: "json \<Rightarrow> Step option" where
  "as_step v =
     (case (obj_get ''id'' v, obj_get ''module'' v, obj_get ''inputs'' v) of
        (Some (JStr i), Some (JStr m), Some (JObj ins)) \<Rightarrow>
          (case obj_get ''outputAs'' v of
             None \<Rightarrow> Some \<lparr>step_id = i, step_module = m, inputs = ins, outputAs = None\<rparr>
           | Some (JStr out) \<Rightarrow> Some \<lparr>step_id = i, step_module = m, inputs = ins, outputAs = Some out\<rparr>
           | Some _ \<Rightarrow> None)
      | _ \<Rightarrow> None)"

definition as_column :: "json \<Rightarrow> Column option" where
  "as_column v =
     (case (obj_get ''key'' v, obj_get ''label'' v) of
        (Some (JStr k), Some (JStr l)) \<Rightarrow> Some \<lparr>key = k, label = l\<rparr>
      | _ \<Rightarrow> None)"

definition as_outputDisplay :: "json \<Rightarrow> OutputDisplay option" where
  "as_outputDisplay v =
     (case obj_get ''type'' v of
        Some (JStr t) \<Rightarrow>
          (case obj_get ''columns'' v of
             None \<Rightarrow> Some \<lparr>display_type = t, columns = None\<rparr>
           | Some (JArr cs) \<Rightarrow>
               (case those (map as_column cs) of
                  None \<Rightarrow> None
                | Some cols \<Rightarrow> Some \<lparr>display_type = t, columns = Some cols\<rparr>)
           | Some _ \<Rightarrow> None)
      | _ \<Rightarrow> None)"

definition as_trigger :: "json \<Rightarrow> Trigger option" where
  "as_trigger v =
     (case (obj_get ''type'' v, obj_get ''config'' v) of
        (Some (JStr t), Some (JObj c)) \<Rightarrow> Some \<lparr>trigger_type = t, trigger_config = JObj c\<rparr>
      | _ \<Rightarrow> None)"

text \<open>An optional property: absent, or present and of the given type.\<close>

definition as_optional :: "(json \<Rightarrow> 'a option) \<Rightarrow> json option \<Rightarrow> 'a option option" where
  "as_optional f v = (case v of None \<Rightarrow> Some None | Some x \<Rightarrow> map_option Some (f x))"

definition as_workflow :: "json \<Rightarrow> Workflow option" where
  "as_workflow v =
     (case obj_get ''config'' v of
        Some cfg \<Rightarrow>
          (case obj_get ''steps'' cfg of
             Some (JArr ss) \<Rightarrow>
               (case (those (map as_step ss),
                      as_optional as_trigger (obj_get ''trigger'' v),
                      as_optional as_outputDisplay (obj_get ''outputDisplay'' cfg)) of
                  (Some steps, Some t, Some od) \<Rightarrow>
                    Some \<lparr>trigger = t, config_steps = steps, config_outputDisplay = od\<rparr>
                | _ \<Rightarrow> None)
           | _ \<Rightarrow> None)
      | None \<Rightarrow> None)"

text \<open>\<^verbatim>\<open>steps[steps.length - 1]\<close>: \<^verbatim>\<open>undefined\<close> on the empty array.\<close>

definition lastStep_of :: "Step list \<Rightarrow> Step option" where
  "lastStep_of steps = (if steps = [] then None else Some (last steps))"

text \<open>
  The result is \<open>None\<close> when the schema accepts a document that is not of the asserted
  type: what the JavaScript does then is outside the declared types.
\<close>

definition validateWorkflowComplete ::
  "ajv \<Rightarrow> Category list \<Rightarrow> json \<Rightarrow> ajv_store \<Rightarrow> ValidationResult option \<times> ajv_store" where
  "validateWorkflowComplete compiled registry workflow st =
     (let (structureResult, st1) = validateWorkflowStructure compiled workflow st
      in if \<not> valid structureResult then (Some structureResult, st1)
         else case as_workflow workflow of
                None \<Rightarrow> (None, st1)
              | Some w \<Rightarrow>
                  (let (allErrors1, st2) =
                         (case trigger w of
                            None \<Rightarrow> ([], st1)
                          | Some t \<Rightarrow>
                              (let (triggerResult, st') = validateTrigger compiled t st1
                               in ([] @ errors triggerResult, st')));
                       moduleResult = validateModulePaths registry (config_steps w);
                       allErrors2 = allErrors1 @ errors moduleResult;
                       varResult = validateVariableReferences (config_steps w);
                       allErrors3 = allErrors2 @ errors varResult;
                       lastStep = lastStep_of (config_steps w);
                       outputResult = validateOutputDisplay (config_outputDisplay w) lastStep;
                       allErrors4 = allErrors3 @ errors outputResult
                   in (Some \<lparr>valid = (length allErrors4 = 0), errors = allErrors4\<rparr>, st2)))"


section \<open>Notions used in the statements\<close>

text \<open>The diagnostics that the trigger check contributes to a complete validation.\<close>

definition trigger_errors :: "ajv \<Rightarrow> Trigger option \<Rightarrow> ValidationError list" where
  "trigger_errors compiled t =
     (case t of None \<Rightarrow> [] | Some tr \<Rightarrow> errors (fst (validateTrigger compiled tr (\<lambda>_. None))))"

text \<open>
  The keywords that mark the diagnostics of the capability-path, variable-reference and
  output-display passes.
\<close>

definition pass_keywords :: "string set" where
  "pass_keywords = {''module-exists'', ''variable-declared'', ''table-columns'', ''output-type-mismatch''}"

text \<open>The names that the template references of a step's inputs refer to, in order.\<close>

definition step_names :: "Step \<Rightarrow> string list" where
  "step_names step = List.map_filter varName (global_match (JSON_stringify (JObj (inputs step))))"

text \<open>The set of bound names when the walk reaches the step of index \<open>k\<close>.\<close>

definition declared_before :: "Step list \<Rightarrow> nat \<Rightarrow> string set" where
  "declared_before steps k = snd (var_walk (take k steps))"

text \<open>The effect of one step on the bound set (lines 241 to 243).\<close>

definition bind_output :: "Step \<Rightarrow> string set \<Rightarrow> string set" where
  "bind_output step D =
     (case outputAs step of None \<Rightarrow> D | Some out \<Rightarrow> if out \<noteq> [] then insert out D else D)"

subsection \<open>The language of the reference pattern\<close>

text \<open>
  Regular expressions with their usual language, to say which strings the pattern
  \<^verbatim>\<open>\{\{(\w+)(?:\.\w+)*(?:\[\d+\])*\}\}\<close> of the source denotes, independently of the
  matching functions above.
\<close>

datatype rexp =
    Chr char
  | WordChar
  | DigitChar
  | Times rexp rexp
  | Star rexp
  | Plus rexp

inductive_set star :: "string set \<Rightarrow> string set" for A :: "string set" where
  star_Nil: "[] \<in> star A"
| star_Cons: "x \<in> A \<Longrightarrow> y \<in> star A \<Longrightarrow> x @ y \<in> star A"

fun lang :: "rexp \<Rightarrow> string set" where
  "lang (Chr c) = {[c]}"
| "lang WordChar = {[c] | c. is_word c}"
| "lang DigitChar = {[c] | c. is_digit c}"
| "lang (Times a b) = {x @ y | x y. x \<in> lang a \<and> y \<in> lang b}"
| "lang (Star a) = star (lang a)"
| "lang (Plus a) = {x @ y | x y. x \<in> lang a \<and> y \<in> star (lang a)}"

declare lang.simps [simp del]

definition dot_part :: rexp where
  "dot_part = Times (Chr CHR ''.'') (Plus WordChar)"

definition index_part :: rexp where
  "index_part = Times (Chr CHR ''['') (Times (Plus DigitChar) (Chr CHR '']''))"

definition ref_regex :: rexp where
  "ref_regex =
     Times (Chr CHR ''{'') (Times (Chr CHR ''{'')
       (Times (Plus WordChar)
          (Times (Star dot_part)
             (Times (Star index_part)
                (Times (Chr CHR ''}'') (Chr CHR ''}''))))))"

section \<open>Sample data\<close>

text \<open>
  Concrete validators, a catalog and documents on which the functions are evaluated. The
  sample validators stand for compiled schemas: the structural one asks for a \<^verbatim>\<open>config\<close>
  property, the cron one for a \<^verbatim>\<open>schedule\<close> property.
\<close>

definition required_violation :: "string \<Rightarrow> ErrorObject" where
  "required_violation p =
     \<lparr>instancePath = [], error_keyword = ''required'',
      error_message = Some (''must have required property '' @ p),
      error_params = \<lparr>missingProperty = Some (JStr p), param_type = None, allowedValues = None,
                       pattern = None, limit = None, allowedValue = None\<rparr>,
      error_data = None\<rparr>"

definition sample_compiled :: ajv where
  "sample_compiled v data =
     (case v of
        ValidateWorkflow \<Rightarrow>
          if obj_get ''config'' data = None then (False, Some [required_violation ''config''])
          else (True, None)
      | ValidateCronTrigger \<Rightarrow>
          if obj_get ''schedule'' data = None then (False, Some [required_violation ''schedule''])
          else (True, None)
      | _ \<Rightarrow> (True, None))"

definition sample_registry :: "Category list" where
  "sample_registry =
     [\<lparr>cat_name = ''utilities'',
       cat_modules =
         [\<lparr>mod_name = ''array'',
           mod_functions =
             [\<lparr>fn_name = ''count'', description = ''Count items'', signature = ''count(items)''\<rparr>,
              \<lparr>fn_name = ''first'', description = ''First item'', signature = ''first(items)''\<rparr>]\<rparr>]\<rparr>]"

definition sample_store :: ajv_store where
  "sample_store = (\<lambda>_. None)"

definition doc_no_config :: json where
  "doc_no_config = JObj [(''version'', JStr ''1.0''), (''name'', JStr ''w'')]"

definition doc_bad_trigger :: json where
  "doc_bad_trigger =
     JObj [(''trigger'', JObj [(''type'', JStr ''cron''), (''config'', JObj [])]),
           (''config'', JObj [(''steps'',
              JArr [JObj [(''id'', JStr ''s1''), (''module'', JStr ''utilities.array.nope''),
                          (''inputs'', JObj [])]])])]"

definition doc_two_steps :: json where
  "doc_two_steps =
     JObj [(''config'', JObj [(''steps'',
              JArr [JObj [(''id'', JStr ''s1''), (''module'', JStr ''utilities.array.first''),
                          (''inputs'', JObj [(''items'', JStr ''{{later}}'')]),
                          (''outputAs'', JStr ''r'')],
                    JObj [(''id'', JStr ''s2''), (''module'', JStr ''utilities.text.upper''),
                          (''inputs'', JObj [(''text'', JStr ''{{r}}'')]),
                          (''outputAs'', JStr ''later'')]]),
             (''outputDisplay'', JObj [(''type'', JStr ''table'')])])]"

section \<open>The structure of a complete validation\<close>

lemma validateWorkflowStructure_result:
  "fst (validateWorkflowStructure compiled doc st) =
     (if \<not> fst (compiled ValidateWorkflow doc)
      then \<lparr>valid = False, errors = formatAjvErrors (snd (compiled ValidateWorkflow doc))\<rparr>
      else \<lparr>valid = True, errors = []\<rparr>)"
  by (simp add: validateWorkflowStructure_def call_validator_def)

lemma validateWorkflowStructure_valid:
  "valid (fst (validateWorkflowStructure compiled doc st)) = fst (compiled ValidateWorkflow doc)"
  by (simp add: validateWorkflowStructure_result)

lemma validateTrigger_store_indep:
  "fst (validateTrigger compiled t st) = fst (validateTrigger compiled t st')"
  by (simp add: validateTrigger_def call_validator_def Let_def)

lemma complete_rejected:
  assumes "\<not> fst (compiled ValidateWorkflow doc)"
  shows "fst (validateWorkflowComplete compiled registry doc st) =
           Some \<lparr>valid = False, errors = formatAjvErrors (snd (compiled ValidateWorkflow doc))\<rparr>"
  using assms
  by (simp add: validateWorkflowComplete_def validateWorkflowStructure_def call_validator_def)

lemma complete_accepted:
  assumes "fst (compiled ValidateWorkflow doc)" and "as_workflow doc = Some w"
  shows "fst (validateWorkflowComplete compiled registry doc st) =
           Some \<lparr>valid = (trigger_errors compiled (trigger w)
                            @ errors (validateModulePaths registry (config_steps w))
                            @ errors (validateVariableReferences (config_steps w))
                            @ errors (validateOutputDisplay (config_outputDisplay w)
                                        (lastStep_of (config_steps w))) = []),
                  errors = trigger_errors compiled (trigger w)
                            @ errors (validateModulePaths registry (config_steps w))
                            @ errors (validateVariableReferences (config_steps w))
                            @ errors (validateOutputDisplay (config_outputDisplay w)
                                        (lastStep_of (config_steps w)))\<rparr>"
proof (cases "trigger w")
  case None
  with assms show ?thesis
    by (simp add: validateWorkflowComplete_def validateWorkflowStructure_def call_validator_def
        trigger_errors_def Let_def)
next
  case (Some t)
  have "fst (validateTrigger compiled t (st(ValidateWorkflow := snd (compiled ValidateWorkflow doc))))
          = fst (validateTrigger compiled t (\<lambda>_. None))"
    by (rule validateTrigger_store_indep)
  with assms Some show ?thesis
    by (simp add: validateWorkflowComplete_def validateWorkflowStructure_def call_validator_def
        trigger_errors_def split_beta Let_def)
qed

lemma complete_unreadable:
  assumes "fst (compiled ValidateWorkflow doc)" and "as_workflow doc = None"
  shows "fst (validateWorkflowComplete compiled registry doc st) = None"
  using assms
  by (simp add: validateWorkflowComplete_def validateWorkflowStructure_def call_validator_def)

lemma complete_store_indep:
  "fst (validateWorkflowComplete compiled registry doc st) =
   fst (validateWorkflowComplete compiled registry doc st')"
proof (cases "fst (compiled ValidateWorkflow doc)")
  case False
  then show ?thesis by (simp add: complete_rejected)
next
  case True
  then show ?thesis
    by (cases "as_workflow doc") (simp_all add: complete_accepted complete_unreadable)
qed

lemma keyword_format_error [simp]: "keyword (format_error eo) = error_keyword eo"
  by (simp add: format_error_def Let_def split_beta)

section \<open>The schema check as a gate\<close>

text \<open>
  Claim C1. When the compiled structural schema rejects a document, leaving a non-empty
  list of violations as AJV does, \<^verbatim>\<open>validateWorkflowComplete\<close> returns at once: the
  result is invalid, its diagnostics are exactly the renderings of the schema violations
  (at least one), it is the same whatever the catalog, and, the schema keywords not being
  keywords of the later passes, it holds no capability-path, variable-reference or
  output-display diagnostic.
\<close>

theorem C1_schema_gate:
  assumes "\<not> valid (fst (validateWorkflowStructure compiled doc st))"
    and "snd (compiled ValidateWorkflow doc) = Some es"
    and "es \<noteq> []"
  shows "\<exists>r. fst (validateWorkflowComplete compiled registry doc st) = Some r
            \<and> \<not> valid r
            \<and> errors r = map format_error es
            \<and> errors r \<noteq> []
            \<and> fst (validateWorkflowComplete compiled registry' doc st) = Some r
            \<and> ((\<forall>eo \<in> set es. error_keyword eo \<notin> pass_keywords)
                 \<longrightarrow> (\<forall>e \<in> set (errors r). keyword e \<notin> pass_keywords))"
proof -
  from assms(1) have rej: "\<not> fst (compiled ValidateWorkflow doc)"
    by (simp add: validateWorkflowStructure_valid)
  have fmt: "formatAjvErrors (snd (compiled ValidateWorkflow doc)) = map format_error es"
    using assms(2,3) by (simp add: formatAjvErrors_def)
  let ?r = "\<lparr>valid = False, errors = map format_error es\<rparr>"
  have "fst (validateWorkflowComplete compiled reg doc st) = Some ?r" for reg
    using complete_rejected [of compiled doc reg st] rej fmt by simp
  moreover have "map format_error es \<noteq> []"
    using assms(3) by simp
  moreover have "(\<forall>eo \<in> set es. error_keyword eo \<notin> pass_keywords)
                 \<longrightarrow> (\<forall>e \<in> set (map format_error es). keyword e \<notin> pass_keywords)"
    by auto
  ultimately show ?thesis by simp
qed

theorem C1_schema_gate_witness:
  "\<not> valid (fst (validateWorkflowStructure sample_compiled doc_no_config sample_store))
   \<and> snd (sample_compiled ValidateWorkflow doc_no_config) = Some [required_violation ''config'']
   \<and> (\<exists>r. fst (validateWorkflowComplete sample_compiled sample_registry doc_no_config sample_store)
              = Some r
          \<and> \<not> valid r \<and> errors r = [format_error (required_violation ''config'')]
          \<and> (\<forall>e \<in> set (errors r). keyword e \<notin> pass_keywords))"
proof -
  have h1: "\<not> valid (fst (validateWorkflowStructure sample_compiled doc_no_config sample_store))"
    by code_simp
  have h2: "snd (sample_compiled ValidateWorkflow doc_no_config) = Some [required_violation ''config'']"
    by code_simp
  have h3: "[required_violation ''config''] \<noteq> []"
    by simp
  have h4: "\<forall>eo \<in> set [required_violation ''config'']. error_keyword eo \<notin> pass_keywords"
    by (simp add: required_violation_def pass_keywords_def)
  from C1_schema_gate [OF h1 h2 h3, of sample_registry sample_registry] h4
  show ?thesis using h1 h2 by auto
qed

section \<open>The trigger check\<close>

text \<open>
  Claim C2, as the specification states it, fails: the trigger sub-schema is checked after
  the gate and never stops the validation. On the sample document, which the structural
  schema accepts and whose cron trigger violates its sub-schema, the result holds the
  trigger diagnostic followed by a capability-path diagnostic.
\<close>

theorem C2_trigger_not_in_gate_counterexample:
  "valid (fst (validateWorkflowStructure sample_compiled doc_bad_trigger sample_store))
   \<and> \<not> valid (fst (validateTrigger sample_compiled
                     \<lparr>trigger_type = ''cron'', trigger_config = JObj []\<rparr> sample_store))
   \<and> fst (validateWorkflowComplete sample_compiled sample_registry doc_bad_trigger sample_store)
       = Some \<lparr>valid = False,
               errors = [format_error (required_violation ''schedule''),
                         module_error sample_registry
                           \<lparr>step_id = ''s1'', step_module = ''utilities.array.nope'',
                            inputs = [], outputAs = None\<rparr>]\<rparr>
   \<and> keyword (module_error sample_registry
                \<lparr>step_id = ''s1'', step_module = ''utilities.array.nope'',
                 inputs = [], outputAs = None\<rparr>) = ''module-exists''"
  by code_simp

text \<open>
  Claim C2, amended. For a document that the structural schema accepts and that has a
  trigger, the trigger check runs after the gate: its diagnostics open the result, and the
  capability-path, variable-reference and output-display passes still run, their
  diagnostics following in that order.
\<close>

theorem C2_trigger_after_gate:
  assumes "valid (fst (validateWorkflowStructure compiled doc st))"
    and "as_workflow doc = Some w"
    and "trigger w = Some t"
  shows "\<exists>r. fst (validateWorkflowComplete compiled registry doc st) = Some r
            \<and> errors r = errors (fst (validateTrigger compiled t st))
                          @ errors (validateModulePaths registry (config_steps w))
                          @ errors (validateVariableReferences (config_steps w))
                          @ errors (validateOutputDisplay (config_outputDisplay w)
                                      (lastStep_of (config_steps w)))"
proof -
  from assms(1) have acc: "fst (compiled ValidateWorkflow doc)"
    by (simp add: validateWorkflowStructure_valid)
  have "trigger_errors compiled (trigger w) = errors (fst (validateTrigger compiled t st))"
    using assms(3) validateTrigger_store_indep [of compiled t "\<lambda>_. None" st]
    by (simp add: trigger_errors_def)
  with complete_accepted [of compiled doc w registry st] acc assms(2) show ?thesis
    by simp
qed

theorem C2_trigger_after_gate_witness:
  "valid (fst (validateWorkflowStructure sample_compiled doc_bad_trigger sample_store))
   \<and> (\<exists>r. fst (validateWorkflowComplete sample_compiled sample_registry doc_bad_trigger sample_store)
              = Some r
          \<and> map keyword (errors r) = [''required'', ''module-exists''])"
proof -
  let ?t = "\<lparr>trigger_type = ''cron'', trigger_config = JObj []\<rparr>"
  let ?s = "\<lparr>step_id = ''s1'', step_module = ''utilities.array.nope'', inputs = [], outputAs = None\<rparr>"
  let ?w = "\<lparr>trigger = Some ?t, config_steps = [?s], config_outputDisplay = None\<rparr>"
  have h1: "valid (fst (validateWorkflowStructure sample_compiled doc_bad_trigger sample_store))"
    by code_simp
  have h2: "as_workflow doc_bad_trigger = Some ?w"
    by code_simp
  have h3: "trigger ?w = Some ?t"
    by simp
  have e1: "map keyword (errors (fst (validateTrigger sample_compiled ?t sample_store))) = [''required'']"
    by code_simp
  have e2: "map keyword (errors (validateModulePaths sample_registry [?s])) = [''module-exists'']"
    by code_simp
  have e3: "errors (validateVariableReferences [?s]) = []"
    by code_simp
  have e4: "errors (validateOutputDisplay None (lastStep_of [?s])) = []"
    by code_simp
  from C2_trigger_after_gate [OF h1 h2 h3, of sample_registry] e1 e2 e3 e4
  show ?thesis using h1 by auto
qed

section \<open>The passes after the gate\<close>

text \<open>
  Claim C5. For a document that the structural schema accepts (and that is of the asserted
  type), \<^verbatim>\<open>validateWorkflowComplete\<close> runs the capability-path, variable-reference and
  output-display passes whatever the others report, their diagnostics stand in the result
  in that order (after those of the trigger check, when a trigger is present and violates
  its sub-schema), and the result is valid exactly when its list of diagnostics is empty.
\<close>

theorem C5_passes_concatenated:
  assumes "valid (fst (validateWorkflowStructure compiled doc st))"
    and "as_workflow doc = Some w"
  shows "\<exists>r. fst (validateWorkflowComplete compiled registry doc st) = Some r
            \<and> errors r = trigger_errors compiled (trigger w)
                          @ (errors (validateModulePaths registry (config_steps w))
                             @ errors (validateVariableReferences (config_steps w))
                             @ errors (validateOutputDisplay (config_outputDisplay w)
                                         (lastStep_of (config_steps w))))
            \<and> (valid r \<longleftrightarrow> errors r = [])
            \<and> (trigger w = None \<longrightarrow>
                 errors r = errors (validateModulePaths registry (config_steps w))
                            @ errors (validateVariableReferences (config_steps w))
                            @ errors (validateOutputDisplay (config_outputDisplay w)
                                        (lastStep_of (config_steps w))))"
proof -
  from assms(1) have acc: "fst (compiled ValidateWorkflow doc)"
    by (simp add: validateWorkflowStructure_valid)
  have "trigger w = None \<longrightarrow> trigger_errors compiled (trigger w) = []"
    by (simp add: trigger_errors_def)
  with complete_accepted [of compiled doc w registry st] acc assms(2) show ?thesis
    by auto
qed

theorem C5_passes_concatenated_witness:
  "valid (fst (validateWorkflowStructure sample_compiled doc_two_steps sample_store))
   \<and> (\<exists>r. fst (validateWorkflowComplete sample_compiled sample_registry doc_two_steps sample_store)
              = Some r
          \<and> map keyword (errors r) = [''module-exists'', ''variable-declared'', ''table-columns'']
          \<and> \<not> valid r)"
proof -
  let ?s1 = "\<lparr>step_id = ''s1'', step_module = ''utilities.array.first'',
              inputs = [(''items'', JStr ''{{later}}'')], outputAs = Some ''r''\<rparr>"
  let ?s2 = "\<lparr>step_id = ''s2'', step_module = ''utilities.text.upper'',
              inputs = [(''text'', JStr ''{{r}}'')], outputAs = Some ''later''\<rparr>"
  let ?od = "\<lparr>display_type = ''table'', columns = None\<rparr>"
  let ?w = "\<lparr>trigger = None, config_steps = [?s1, ?s2], config_outputDisplay = Some ?od\<rparr>"
  have h1: "valid (fst (validateWorkflowStructure sample_compiled doc_two_steps sample_store))"
    by code_simp
  have h2: "as_workflow doc_two_steps = Some ?w"
    by code_simp
  have e1: "map keyword (errors (validateModulePaths sample_registry [?s1, ?s2])) = [''module-exists'']"
    by code_simp
  have e2: "map keyword (errors (validateVariableReferences [?s1, ?s2])) = [''variable-declared'']"
    by code_simp
  have e3: "map keyword (errors (validateOutputDisplay (Some ?od) (lastStep_of [?s1, ?s2])))
              = [''table-columns'']"
    by code_simp
  from C5_passes_concatenated [OF h1 h2, of sample_registry] e1 e2 e3
  show ?thesis using h1 by (auto simp: trigger_errors_def)
qed

section \<open>Determinism\<close>

text \<open>
  Claim C9. The only state that outlives a call is the \<^verbatim>\<open>errors\<close> property of each
  compiled validator, and it is written before it is read. Hence a second validation of
  the same document, started in the state the first one left, returns the same result as
  the first, and so does a validation started in any other state.
\<close>

theorem C9_deterministic:
  "fst (validateWorkflowComplete compiled registry doc
          (snd (validateWorkflowComplete compiled registry doc st)))
     = fst (validateWorkflowComplete compiled registry doc st)
   \<and> fst (validateWorkflowComplete compiled registry doc st')
     = fst (validateWorkflowComplete compiled registry doc st)"
  using complete_store_indep [of compiled registry doc _ st] by simp

section \<open>Output display\<close>

lemma str_includes_iff: "str_includes s frag \<longleftrightarrow> (\<exists>p q. s = p @ frag @ q)"
proof (induction s)
  case Nil
  then show ?case by simp
next
  case (Cons c cs)
  have here: "take (length frag) (c # cs) = frag \<longleftrightarrow> (\<exists>q. c # cs = frag @ q)"
    by (metis append_eq_conv_conj append_take_drop_id)
  have "(\<exists>p q. c # cs = p @ frag @ q) \<longleftrightarrow> (\<exists>q. c # cs = frag @ q) \<or> (\<exists>p q. cs = p @ frag @ q)"
  proof
    assume "\<exists>p q. c # cs = p @ frag @ q"
    then obtain p q where pq: "c # cs = p @ frag @ q" by blast
    show "(\<exists>q. c # cs = frag @ q) \<or> (\<exists>p q. cs = p @ frag @ q)"
    proof (cases p)
      case Nil
      with pq show ?thesis by auto
    next
      case (Cons a p')
      with pq have "cs = p' @ frag @ q" by simp
      then show ?thesis by blast
    qed
  next
    assume "(\<exists>q. c # cs = frag @ q) \<or> (\<exists>p q. cs = p @ frag @ q)"
    then show "\<exists>p q. c # cs = p @ frag @ q"
    proof
      assume "\<exists>q. c # cs = frag @ q"
      then obtain q where "c # cs = [] @ frag @ q" by auto
      then show ?thesis by blast
    next
      assume "\<exists>p q. cs = p @ frag @ q"
      then obtain p q where "c # cs = (c # p) @ frag @ q" by auto
      then show ?thesis by blast
    qed
  qed
  with Cons here show ?case by simp
qed

lemma validateOutputDisplay_absent:
  "validateOutputDisplay None lastStep = \<lparr>valid = True, errors = []\<rparr>"
  "validateOutputDisplay outputDisplay None = \<lparr>valid = True, errors = []\<rparr>"
  by (simp_all add: validateOutputDisplay_def split: option.splits)

lemma validateOutputDisplay_present:
  "errors (validateOutputDisplay (Some od) (Some ls)) =
     (if display_type od = ''table'' \<and> (columns od = None \<or> columns od = Some [])
      then [table_columns_error] else [])
     @ (if display_type od = ''table''
           \<and> (\<exists>frag \<in> set singleValueModules. str_includes (step_module ls) frag)
        then [output_type_mismatch_error] else [])"
  by (cases "columns od") (simp_all add: validateOutputDisplay_def Let_def list_ex_iff)

lemma validateOutputDisplay_valid:
  "valid (validateOutputDisplay outputDisplay lastStep)
     \<longleftrightarrow> errors (validateOutputDisplay outputDisplay lastStep) = []"
  by (simp add: validateOutputDisplay_def Let_def split: option.splits)

lemma output_keywords [simp]:
  "keyword table_columns_error = ''table-columns''"
  "keyword output_type_mismatch_error = ''output-type-mismatch''"
  by (simp_all add: table_columns_error_def output_type_mismatch_error_def)

text \<open>
  Claim C6. With both arguments present, a table display whose columns are missing or
  empty gets exactly one \<^verbatim>\<open>table-columns\<close> diagnostic, and a display with at least one
  column gets none; when the display descriptor or the last step is absent the result is
  valid and empty.
\<close>

theorem C6_table_columns:
  "(display_type od = ''table'' \<and> (columns od = None \<or> columns od = Some []) \<longrightarrow>
      filter (\<lambda>e. keyword e = ''table-columns'') (errors (validateOutputDisplay (Some od) (Some ls)))
        = [table_columns_error])
   \<and> ((\<exists>c cs. columns od = Some (c # cs)) \<longrightarrow>
      filter (\<lambda>e. keyword e = ''table-columns'') (errors (validateOutputDisplay (Some od) (Some ls)))
        = [])
   \<and> validateOutputDisplay None lastStep = \<lparr>valid = True, errors = []\<rparr>
   \<and> validateOutputDisplay outputDisplay None = \<lparr>valid = True, errors = []\<rparr>"
  by (auto simp: validateOutputDisplay_present validateOutputDisplay_absent)

theorem C6_table_columns_witness:
  "filter (\<lambda>e. keyword e = ''table-columns'')
     (errors (validateOutputDisplay (Some \<lparr>display_type = ''table'', columns = None\<rparr>)
        (Some \<lparr>step_id = ''s1'', step_module = ''utilities.array.first'', inputs = [],
               outputAs = None\<rparr>))) = [table_columns_error]
   \<and> filter (\<lambda>e. keyword e = ''table-columns'')
     (errors (validateOutputDisplay (Some \<lparr>display_type = ''table'', columns = Some []\<rparr>)
        (Some \<lparr>step_id = ''s1'', step_module = ''utilities.array.first'', inputs = [],
               outputAs = None\<rparr>))) = [table_columns_error]
   \<and> filter (\<lambda>e. keyword e = ''table-columns'')
     (errors (validateOutputDisplay
        (Some \<lparr>display_type = ''table'', columns = Some [\<lparr>key = ''id'', label = ''Id''\<rparr>]\<rparr>)
        (Some \<lparr>step_id = ''s1'', step_module = ''utilities.array.first'', inputs = [],
               outputAs = None\<rparr>))) = []"
  using
    C6_table_columns [of "\<lparr>display_type = ''table'', columns = None\<rparr>"
      "\<lparr>step_id = ''s1'', step_module = ''utilities.array.first'', inputs = [], outputAs = None\<rparr>"]
    C6_table_columns [of "\<lparr>display_type = ''table'', columns = Some []\<rparr>"
      "\<lparr>step_id = ''s1'', step_module = ''utilities.array.first'', inputs = [], outputAs = None\<rparr>"]
    C6_table_columns [of "\<lparr>display_type = ''table'', columns = Some [\<lparr>key = ''id'', label = ''Id''\<rparr>]\<rparr>"
      "\<lparr>step_id = ''s1'', step_module = ''utilities.array.first'', inputs = [], outputAs = None\<rparr>"]
  by simp

lemma mismatch_emitted:
  assumes "display_type od = ''table''"
    and "frag \<in> set singleValueModules"
    and "str_includes (step_module ls) frag"
  shows "output_type_mismatch_error \<in> set (errors (validateOutputDisplay (Some od) (Some ls)))"
    and "\<not> valid (validateOutputDisplay (Some od) (Some ls))"
    and "filter (\<lambda>e. keyword e = ''output-type-mismatch'')
           (errors (validateOutputDisplay (Some od) (Some ls))) = [output_type_mismatch_error]"
proof -
  from assms have ex: "\<exists>frag \<in> set singleValueModules. str_includes (step_module ls) frag"
    by blast
  with assms(1) show "output_type_mismatch_error \<in> set (errors (validateOutputDisplay (Some od) (Some ls)))"
    by (simp add: validateOutputDisplay_present)
  then show "\<not> valid (validateOutputDisplay (Some od) (Some ls))"
    by (auto simp: validateOutputDisplay_valid)
  from ex assms(1) show "filter (\<lambda>e. keyword e = ''output-type-mismatch'')
           (errors (validateOutputDisplay (Some od) (Some ls))) = [output_type_mismatch_error]"
    by (simp add: validateOutputDisplay_present)
qed

text \<open>
  Claim C7. With a table display and a last step whose capability path contains one of
  the fragments of the fixed list, \<^verbatim>\<open>validateOutputDisplay\<close> emits the
  \<^verbatim>\<open>output-type-mismatch\<close> diagnostic, once, and the result is invalid.
\<close>

theorem C7_type_mismatch:
  assumes "display_type od = ''table''"
    and "frag \<in> set singleValueModules"
    and "str_includes (step_module ls) frag"
  shows "output_type_mismatch_error \<in> set (errors (validateOutputDisplay (Some od) (Some ls)))
         \<and> \<not> valid (validateOutputDisplay (Some od) (Some ls))
         \<and> filter (\<lambda>e. keyword e = ''output-type-mismatch'')
             (errors (validateOutputDisplay (Some od) (Some ls))) = [output_type_mismatch_error]"
  using mismatch_emitted [OF assms] by simp

theorem C7_type_mismatch_witness:
  "display_type \<lparr>display_type = ''table'', columns = Some [\<lparr>key = ''n'', label = ''N''\<rparr>]\<rparr> = ''table''
   \<and> ''count'' \<in> set singleValueModules
   \<and> str_includes ''utilities.array.count'' ''count''
   \<and> errors (validateOutputDisplay
        (Some \<lparr>display_type = ''table'', columns = Some [\<lparr>key = ''n'', label = ''N''\<rparr>]\<rparr>)
        (Some \<lparr>step_id = ''s1'', step_module = ''utilities.array.count'', inputs = [],
               outputAs = None\<rparr>)) = [output_type_mismatch_error]"
proof -
  let ?od = "\<lparr>display_type = ''table'', columns = Some [\<lparr>key = ''n'', label = ''N''\<rparr>]\<rparr>"
  let ?ls = "\<lparr>step_id = ''s1'', step_module = ''utilities.array.count'', inputs = [], outputAs = None\<rparr>"
  have h1: "display_type ?od = ''table''" by simp
  have h2: "''count'' \<in> set singleValueModules" by (simp add: singleValueModules_def)
  have h3: "str_includes (step_module ?ls) ''count''" by code_simp
  have all: "\<forall>e \<in> set (errors (validateOutputDisplay (Some ?od) (Some ?ls))).
               keyword e = ''output-type-mismatch''"
    by (simp add: validateOutputDisplay_present)
  from C7_type_mismatch [OF h1 h2 h3] have
    "filter (\<lambda>e. keyword e = ''output-type-mismatch'')
       (errors (validateOutputDisplay (Some ?od) (Some ?ls))) = [output_type_mismatch_error]"
    by simp
  moreover from all have
    "filter (\<lambda>e. keyword e = ''output-type-mismatch'')
       (errors (validateOutputDisplay (Some ?od) (Some ?ls)))
     = errors (validateOutputDisplay (Some ?od) (Some ?ls))"
    by (simp add: filter_id_conv)
  ultimately show ?thesis using h2 h3 by simp
qed

text \<open>
  The same end to end: a document that the structural schema accepts, with a table display
  and such a last step, is reported invalid with that diagnostic.
\<close>

lemma type_mismatch_end_to_end:
  assumes "valid (fst (validateWorkflowStructure compiled doc st))"
    and "as_workflow doc = Some w"
    and "config_outputDisplay w = Some od"
    and "display_type od = ''table''"
    and "config_steps w \<noteq> []"
    and "frag \<in> set singleValueModules"
    and "str_includes (step_module (last (config_steps w))) frag"
  shows "\<exists>r. fst (validateWorkflowComplete compiled registry doc st) = Some r
            \<and> output_type_mismatch_error \<in> set (errors r) \<and> \<not> valid r"
proof -
  from assms(1) have acc: "fst (compiled ValidateWorkflow doc)"
    by (simp add: validateWorkflowStructure_valid)
  have "output_type_mismatch_error
          \<in> set (errors (validateOutputDisplay (config_outputDisplay w) (lastStep_of (config_steps w))))"
    using mismatch_emitted(1) [OF assms(4,6,7)] assms(3,5) by (simp add: lastStep_of_def)
  with complete_accepted [of compiled doc w registry st] acc assms(2) show ?thesis
    by auto
qed

section \<open>Capability paths\<close>

lemma split_nonempty: "split sep s \<noteq> []"
  by (induction s) (auto split: list.splits)

lemma module_fold:
  "foldl (\<lambda>errs step. if step_module step \<notin> P then errs @ [f step] else errs) acc steps
     = acc @ map f (filter (\<lambda>s. step_module s \<notin> P) steps)"
  by (induction steps arbitrary: acc) simp_all

lemma validateModulePaths_errors:
  "errors (validateModulePaths registry steps)
     = map (module_error registry) (filter (\<lambda>s. step_module s \<notin> validPaths registry) steps)"
  by (simp add: validateModulePaths_def module_fold)

lemma validateModulePaths_valid:
  "valid (validateModulePaths registry steps) \<longleftrightarrow> errors (validateModulePaths registry steps) = []"
  by (simp add: validateModulePaths_def Let_def)

lemma filter_distinct_key:
  "distinct (map f xs) \<Longrightarrow> x \<in> set xs \<Longrightarrow> filter (\<lambda>y. f y = f x) xs = [x]"
proof (induction xs)
  case Nil
  then show ?case by simp
next
  case (Cons a xs)
  show ?case
  proof (cases "a = x")
    case True
    with Cons.prems(1) have "f x \<notin> f ` set xs" by simp
    then have "\<forall>y \<in> set xs. f y \<noteq> f x" by (metis imageI)
    then have "filter (\<lambda>y. f y = f x) xs = []" by (simp add: filter_empty_conv)
    with True show ?thesis by simp
  next
    case False
    with Cons.prems have "x \<in> set xs" and "f a \<noteq> f x" by auto
    with Cons show ?thesis by simp
  qed
qed

lemma find_None_image: "find (\<lambda>x. f x = k) xs = None \<longleftrightarrow> k \<notin> f ` set xs"
  by (auto simp: find_None_iff)

lemma module_error_fields [simp]:
  "path (module_error registry s) = ''/config/steps/'' @ step_id s @ ''/module''"
  "keyword (module_error registry s) = ''module-exists''"
  "suggestion (module_error registry s) = Some (module_suggestion registry (step_module s))"
  by (simp_all add: module_error_def)

lemma suggestion_unknown_category:
  assumes "split CHR ''.'' m = c # rest" and "c \<notin> cat_name ` set registry"
  shows "module_suggestion registry m
           = ''Category '' @ dq @ c @ dq @ '' not found. Available: ''
               @ join '', '' (map cat_name registry)"
proof -
  from assms(2) have "find (\<lambda>x. Some (cat_name x) = Some c) registry = None"
    by (auto simp: find_None_iff)
  with assms(1) show ?thesis
    by (simp add: module_suggestion_def tpl_str_def)
qed

lemma suggestion_unknown_module:
  assumes "split CHR ''.'' m = c # rest"
    and "find (\<lambda>x. cat_name x = c) registry = Some category"
    and "(case rest of [] \<Rightarrow> None | md # _ \<Rightarrow> Some md) \<notin> Some ` mod_name ` set (cat_modules category)"
  shows "module_suggestion registry m
           = ''Module '' @ dq @ tpl_str (case rest of [] \<Rightarrow> None | md # _ \<Rightarrow> Some md) @ dq
               @ '' not found in category '' @ dq @ c @ dq @ ''. Available: ''
               @ join '', '' (map mod_name (cat_modules category))"
proof -
  let ?mn = "case rest of [] \<Rightarrow> None | md # _ \<Rightarrow> Some md"
  have "\<And>x. x \<in> set (cat_modules category) \<Longrightarrow> Some (mod_name x) \<noteq> ?mn"
    using assms(3) by (metis imageI)
  then have "find (\<lambda>x. Some (mod_name x) = ?mn) (cat_modules category) = None"
    by (simp add: find_None_iff)
  with assms(1,2) show ?thesis
    by (cases rest) (simp_all add: module_suggestion_def tpl_str_def)
qed

lemma suggestion_unknown_function:
  assumes "split CHR ''.'' m = c # md # rest"
    and "find (\<lambda>x. cat_name x = c) registry = Some category"
    and "find (\<lambda>x. mod_name x = md) (cat_modules category) = Some foundModule"
  shows "module_suggestion registry m
           = ''Function not found in '' @ c @ ''.'' @ md @ ''. Available: ''
               @ join '', '' (map fn_name (mod_functions foundModule))"
  using assms by (simp add: module_suggestion_def tpl_str_def)

lemma suggestion_nonempty: "module_suggestion registry m \<noteq> []"
  by (simp add: module_suggestion_def Let_def split: option.splits)

text \<open>
  Claim C4. The diagnostics of \<^verbatim>\<open>validateModulePaths\<close> are, in step order, one
  \<^verbatim>\<open>module-exists\<close> diagnostic for each step whose path is not in the catalog, addressed
  to the step's id (exactly one per such step when the ids are distinct). Its suggestion
  goes by the first two segments \<open>c\<close> and \<open>md\<close> of the path: if no category is named \<open>c\<close>
  it lists all categories; else, if the category has no module named \<open>md\<close> (or the path
  has no second segment), it lists the modules of the category; else it lists the
  functions of that module. The suggestion is never empty.
\<close>

theorem C4_capability_not_found:
  "errors (validateModulePaths registry steps)
     = map (module_error registry) (filter (\<lambda>s. step_module s \<notin> validPaths registry) steps)
   \<and> (distinct (map step_id steps) \<and> s \<in> set steps \<and> step_module s \<notin> validPaths registry \<longrightarrow>
        filter (\<lambda>e. path e = ''/config/steps/'' @ step_id s @ ''/module'')
          (errors (validateModulePaths registry steps)) = [module_error registry s])
   \<and> keyword (module_error registry s) = ''module-exists''
   \<and> (\<exists>c rest. split CHR ''.'' (step_module s) = c # rest)
   \<and> (\<forall>c rest. split CHR ''.'' (step_module s) = c # rest \<and> c \<notin> cat_name ` set registry \<longrightarrow>
        suggestion (module_error registry s)
          = Some (''Category '' @ dq @ c @ dq @ '' not found. Available: ''
                    @ join '', '' (map cat_name registry)))
   \<and> (\<forall>c rest category. split CHR ''.'' (step_module s) = c # rest
          \<and> find (\<lambda>x. cat_name x = c) registry = Some category
          \<and> (case rest of [] \<Rightarrow> None | md # _ \<Rightarrow> Some md) \<notin> Some ` mod_name ` set (cat_modules category) \<longrightarrow>
        suggestion (module_error registry s)
          = Some (''Module '' @ dq @ tpl_str (case rest of [] \<Rightarrow> None | md # _ \<Rightarrow> Some md) @ dq
                    @ '' not found in category '' @ dq @ c @ dq @ ''. Available: ''
                    @ join '', '' (map mod_name (cat_modules category))))
   \<and> (\<forall>c md rest category foundModule. split CHR ''.'' (step_module s) = c # md # rest
          \<and> find (\<lambda>x. cat_name x = c) registry = Some category
          \<and> find (\<lambda>x. mod_name x = md) (cat_modules category) = Some foundModule \<longrightarrow>
        suggestion (module_error registry s)
          = Some (''Function not found in '' @ c @ ''.'' @ md @ ''. Available: ''
                    @ join '', '' (map fn_name (mod_functions foundModule))))
   \<and> suggestion (module_error registry s) \<noteq> None
   \<and> suggestion (module_error registry s) \<noteq> Some []"
proof -
  have one: "distinct (map step_id steps) \<and> s \<in> set steps \<and> step_module s \<notin> validPaths registry \<longrightarrow>
        filter (\<lambda>e. path e = ''/config/steps/'' @ step_id s @ ''/module'')
          (errors (validateModulePaths registry steps)) = [module_error registry s]"
  proof
    assume a: "distinct (map step_id steps) \<and> s \<in> set steps \<and> step_module s \<notin> validPaths registry"
    then have "filter (\<lambda>y. step_id y = step_id s) steps = [s]"
      by (simp add: filter_distinct_key)
    then have "filter (\<lambda>y. step_module y \<notin> validPaths registry) (filter (\<lambda>y. step_id y = step_id s) steps) = [s]"
      using a by simp
    then have "filter (\<lambda>y. step_id y = step_id s) (filter (\<lambda>y. step_module y \<notin> validPaths registry) steps) = [s]"
      by (simp add: conj_commute)
    then show "filter (\<lambda>e. path e = ''/config/steps/'' @ step_id s @ ''/module'')
          (errors (validateModulePaths registry steps)) = [module_error registry s]"
      by (simp add: validateModulePaths_errors filter_map comp_def)
  qed
  have ex: "\<exists>c rest. split CHR ''.'' (step_module s) = c # rest"
    using split_nonempty [of "CHR ''.''" "step_module s"] by (cases "split CHR ''.'' (step_module s)") auto
  show ?thesis
    using one ex
    by (simp add: validateModulePaths_errors suggestion_unknown_category
        suggestion_unknown_module suggestion_unknown_function suggestion_nonempty)
qed

theorem C4_capability_not_found_witness:
  "errors (validateModulePaths sample_registry
      [\<lparr>step_id = ''s1'', step_module = ''nocat.x.y'', inputs = [], outputAs = None\<rparr>,
       \<lparr>step_id = ''s2'', step_module = ''utilities.text.upper'', inputs = [], outputAs = None\<rparr>,
       \<lparr>step_id = ''s3'', step_module = ''utilities.array.nope'', inputs = [], outputAs = None\<rparr>,
       \<lparr>step_id = ''s4'', step_module = ''utilities.array.count'', inputs = [], outputAs = None\<rparr>])
     = [module_error sample_registry
          \<lparr>step_id = ''s1'', step_module = ''nocat.x.y'', inputs = [], outputAs = None\<rparr>,
        module_error sample_registry
          \<lparr>step_id = ''s2'', step_module = ''utilities.text.upper'', inputs = [], outputAs = None\<rparr>,
        module_error sample_registry
          \<lparr>step_id = ''s3'', step_module = ''utilities.array.nope'', inputs = [], outputAs = None\<rparr>]
   \<and> suggestion (module_error sample_registry
          \<lparr>step_id = ''s1'', step_module = ''nocat.x.y'', inputs = [], outputAs = None\<rparr>)
       = Some (''Category '' @ dq @ ''nocat'' @ dq @ '' not found. Available: utilities'')
   \<and> suggestion (module_error sample_registry
          \<lparr>step_id = ''s2'', step_module = ''utilities.text.upper'', inputs = [], outputAs = None\<rparr>)
       = Some (''Module '' @ dq @ ''text'' @ dq @ '' not found in category '' @ dq @ ''utilities'' @ dq
                 @ ''. Available: array'')
   \<and> suggestion (module_error sample_registry
          \<lparr>step_id = ''s3'', step_module = ''utilities.array.nope'', inputs = [], outputAs = None\<rparr>)
       = Some ''Function not found in utilities.array. Available: count, first''
   \<and> filter (\<lambda>e. path e = ''/config/steps/s2/module'')
       (errors (validateModulePaths sample_registry
          [\<lparr>step_id = ''s1'', step_module = ''nocat.x.y'', inputs = [], outputAs = None\<rparr>,
           \<lparr>step_id = ''s2'', step_module = ''utilities.text.upper'', inputs = [], outputAs = None\<rparr>,
           \<lparr>step_id = ''s3'', step_module = ''utilities.array.nope'', inputs = [], outputAs = None\<rparr>,
           \<lparr>step_id = ''s4'', step_module = ''utilities.array.count'', inputs = [], outputAs = None\<rparr>]))
       = [module_error sample_registry
            \<lparr>step_id = ''s2'', step_module = ''utilities.text.upper'', inputs = [], outputAs = None\<rparr>]"
proof -
  let ?s1 = "\<lparr>step_id = ''s1'', step_module = ''nocat.x.y'', inputs = [], outputAs = None\<rparr>"
  let ?s2 = "\<lparr>step_id = ''s2'', step_module = ''utilities.text.upper'', inputs = [], outputAs = None\<rparr>"
  let ?s3 = "\<lparr>step_id = ''s3'', step_module = ''utilities.array.nope'', inputs = [], outputAs = None\<rparr>"
  let ?s4 = "\<lparr>step_id = ''s4'', step_module = ''utilities.array.count'', inputs = [], outputAs = None\<rparr>"
  let ?cat = "hd sample_registry"
  let ?md = "hd (cat_modules ?cat)"
  have missing: "filter (\<lambda>s. step_module s \<notin> validPaths sample_registry) [?s1, ?s2, ?s3, ?s4]
                   = [?s1, ?s2, ?s3]"
    by (simp add: validPaths_def sample_registry_def)
  have sp1: "split CHR ''.'' (step_module ?s1) = ''nocat'' # [''x'', ''y'']" by simp
  have sp2: "split CHR ''.'' (step_module ?s2) = ''utilities'' # [''text'', ''upper'']" by simp
  have sp3: "split CHR ''.'' (step_module ?s3) = ''utilities'' # ''array'' # [''nope'']" by simp
  have c1: "''nocat'' \<notin> cat_name ` set sample_registry"
    by (simp add: sample_registry_def)
  have c2: "find (\<lambda>x. cat_name x = ''utilities'') sample_registry = Some ?cat"
    by (simp add: sample_registry_def)
  have m2: "(case [''text'', ''upper''] of [] \<Rightarrow> None | md # _ \<Rightarrow> Some md)
              \<notin> Some ` mod_name ` set (cat_modules ?cat)"
    by (simp add: sample_registry_def)
  have m3: "find (\<lambda>x. mod_name x = ''array'') (cat_modules ?cat) = Some ?md"
    by (simp add: sample_registry_def)
  have names: "join '', '' (map cat_name sample_registry) = ''utilities''"
    "join '', '' (map mod_name (cat_modules ?cat)) = ''array''"
    "join '', '' (map fn_name (mod_functions ?md)) = ''count, first''"
    by (simp_all add: sample_registry_def)
  note t1 = C4_capability_not_found [of sample_registry "[?s1, ?s2, ?s3, ?s4]" ?s1]
  note t2 = C4_capability_not_found [of sample_registry "[?s1, ?s2, ?s3, ?s4]" ?s2]
  note t3 = C4_capability_not_found [of sample_registry "[?s1, ?s2, ?s3, ?s4]" ?s3]
  have a: "errors (validateModulePaths sample_registry [?s1, ?s2, ?s3, ?s4])
             = map (module_error sample_registry) [?s1, ?s2, ?s3]"
    using t1 missing by simp
  have b: "suggestion (module_error sample_registry ?s1)
             = Some (''Category '' @ dq @ ''nocat'' @ dq @ '' not found. Available: ''
                       @ join '', '' (map cat_name sample_registry))"
    using t1 sp1 c1 by blast
  have c: "suggestion (module_error sample_registry ?s2)
             = Some (''Module '' @ dq
                       @ tpl_str (case [''text'', ''upper''] of [] \<Rightarrow> None | md # _ \<Rightarrow> Some md) @ dq
                       @ '' not found in category '' @ dq @ ''utilities'' @ dq @ ''. Available: ''
                       @ join '', '' (map mod_name (cat_modules ?cat)))"
    using t2 sp2 c2 m2 by blast
  have d: "suggestion (module_error sample_registry ?s3)
             = Some (''Function not found in '' @ ''utilities'' @ ''.'' @ ''array'' @ ''. Available: ''
                       @ join '', '' (map fn_name (mod_functions ?md)))"
    using t3 sp3 c2 m3 by blast
  have ids: "distinct (map step_id [?s1, ?s2, ?s3, ?s4]) \<and> ?s2 \<in> set [?s1, ?s2, ?s3, ?s4]
               \<and> step_module ?s2 \<notin> validPaths sample_registry"
    by (simp add: validPaths_def sample_registry_def)
  have one: "filter (\<lambda>e. path e = ''/config/steps/'' @ step_id ?s2 @ ''/module'')
               (errors (validateModulePaths sample_registry [?s1, ?s2, ?s3, ?s4]))
             = [module_error sample_registry ?s2]"
    using t2 ids by blast
  show ?thesis
    using a b c d one names by (simp add: tpl_str_def)
qed

section \<open>Decimal indices\<close>

lemma digit_char_val: "d < 10 \<Longrightarrow> (of_char (digit_char d) :: nat) - 48 = d"
  by (simp add: digit_char_def)

lemma digits_val_snoc: "digits_val (s @ [c]) = 10 * digits_val s + (of_char c - 48)"
  by (simp add: digits_val_def)

lemma digits_val_show_nat: "digits_val (show_nat n) = n"
proof (induction n rule: show_nat.induct)
  case (1 n)
  show ?case
  proof (cases "n < 10")
    case True
    then show ?thesis
      by (subst show_nat.simps) (simp add: digits_val_def digit_char_val)
  next
    case False
    with 1 have ih: "digits_val (show_nat (n div 10)) = n div 10" by simp
    have "n mod 10 < 10" by simp
    then have "(of_char (digit_char (n mod 10)) :: nat) - 48 = n mod 10"
      by (rule digit_char_val)
    with False ih show ?thesis
      by (subst show_nat.simps) (simp add: digits_val_snoc)
  qed
qed

lemma show_nat_inj: "show_nat i = show_nat j \<Longrightarrow> i = j"
  by (metis digits_val_show_nat)

lemma unbound_error_fields [simp]:
  "path (unbound_error k v) = ''/config/steps/'' @ show_nat k @ ''/inputs''"
  "message (unbound_error k v) = ''Reference to undeclared variable: '' @ v"
  "keyword (unbound_error k v) = ''variable-declared''"
  by (simp_all add: unbound_error_def)

lemma unbound_error_inj:
  "path (unbound_error k v) = path (unbound_error k' v') \<Longrightarrow> k = k'"
  "message (unbound_error k v) = message (unbound_error k' v') \<Longrightarrow> v = v'"
  by (simp_all add: show_nat_inj)

section \<open>The walk over the steps\<close>

lemma varName_nonempty: "varName r = Some v \<Longrightarrow> v \<noteq> []"
  by (induction r rule: varName.induct) (auto split: list.splits if_splits)

lemma check_ref_fold:
  "foldl (check_ref i D) errs refs
     = errs @ map (unbound_error i) (filter (\<lambda>v. v \<notin> D) (List.map_filter varName refs))"
proof (induction refs arbitrary: errs)
  case Nil
  then show ?case by (simp add: List.map_filter_simps)
next
  case (Cons r refs)
  show ?case
  proof (cases "varName r")
    case None
    with Cons show ?thesis by (simp add: check_ref_def List.map_filter_simps)
  next
    case (Some v)
    then have "v \<noteq> []" by (rule varName_nonempty)
    with Some Cons show ?thesis by (simp add: check_ref_def List.map_filter_simps)
  qed
qed

lemma var_step_eq:
  "var_step (errs, D) (i, s)
     = (errs @ map (unbound_error i) (filter (\<lambda>v. v \<notin> D) (step_names s)), bind_output s D)"
  by (simp add: var_step_def check_ref_fold step_names_def bind_output_def Let_def)

lemma var_walk_Nil [simp]: "var_walk [] = ([], {''user'', ''trigger''})"
  by (simp add: var_walk_def)

lemma var_walk_snoc:
  "var_walk (ss @ [s])
     = (fst (var_walk ss)
          @ map (unbound_error (length ss)) (filter (\<lambda>v. v \<notin> snd (var_walk ss)) (step_names s)),
        bind_output s (snd (var_walk ss)))"
proof -
  have "var_walk (ss @ [s]) = var_step (var_walk ss) (length ss, s)"
    by (simp add: var_walk_def enumerate_append_eq)
  also have "\<dots> = var_step (fst (var_walk ss), snd (var_walk ss)) (length ss, s)"
    by simp
  finally show ?thesis
    by (simp only: var_step_eq)
qed

lemma declared_closed_form:
  "snd (var_walk ss) = {''user'', ''trigger''} \<union> {out. out \<noteq> [] \<and> Some out \<in> outputAs ` set ss}"
proof (induction ss rule: rev_induct)
  case Nil
  then show ?case by simp
next
  case (snoc s ss)
  then show ?case
    by (cases "outputAs s") (auto simp: var_walk_snoc bind_output_def)
qed

lemma declared_before_mono:
  assumes "i \<le> j"
  shows "declared_before steps i \<subseteq> declared_before steps j"
proof -
  have "set (take i steps) \<subseteq> set (take j steps)"
    using assms by (rule set_take_subset_set_take)
  then show ?thesis
    unfolding declared_before_def declared_closed_form by blast
qed

lemma builtins_declared: "''user'' \<in> declared_before steps k" "''trigger'' \<in> declared_before steps k"
  by (simp_all add: declared_before_def declared_closed_form)

lemma declared_before_iff:
  "v \<in> declared_before steps k \<longleftrightarrow>
     v = ''user'' \<or> v = ''trigger'' \<or> (v \<noteq> [] \<and> (\<exists>j < k. j < length steps \<and> outputAs (steps ! j) = Some v))"
proof -
  have "Some v \<in> outputAs ` set (take k steps)
          \<longleftrightarrow> (\<exists>j < k. j < length steps \<and> outputAs (steps ! j) = Some v)"
  proof
    assume "Some v \<in> outputAs ` set (take k steps)"
    then obtain x where x: "x \<in> set (take k steps)" "outputAs x = Some v" by force
    then obtain j where "j < length (take k steps)" "take k steps ! j = x"
      by (auto simp: in_set_conv_nth)
    with x show "\<exists>j < k. j < length steps \<and> outputAs (steps ! j) = Some v"
      by auto
  next
    assume "\<exists>j < k. j < length steps \<and> outputAs (steps ! j) = Some v"
    then obtain j where j: "j < k" "j < length steps" "outputAs (steps ! j) = Some v" by blast
    then have "steps ! j \<in> set (take k steps)"
      by (metis in_set_conv_nth length_take min_less_iff_conj nth_take)
    with j(3) show "Some v \<in> outputAs ` set (take k steps)"
      by (metis imageI)
  qed
  then show ?thesis
    by (auto simp: declared_before_def declared_closed_form)
qed

lemma declared_before_append:
  "k \<le> length ss \<Longrightarrow> declared_before (ss @ ts) k = declared_before ss k"
  by (simp add: declared_before_def)

lemma declared_before_length: "declared_before ss (length ss) = snd (var_walk ss)"
  by (simp add: declared_before_def)

text \<open>Every diagnostic of the walk, and nothing else.\<close>

lemma walk_errors_iff:
  "e \<in> set (fst (var_walk ss)) \<longleftrightarrow>
     (\<exists>k < length ss. \<exists>v \<in> set (step_names (ss ! k)).
        v \<notin> declared_before ss k \<and> e = unbound_error k v)"
proof (induction ss rule: rev_induct)
  case Nil
  then show ?case by simp
next
  case (snoc s ss)
  let ?n = "length ss"
  let ?P = "\<lambda>xs k. \<exists>v \<in> set (step_names (xs ! k)). v \<notin> declared_before xs k \<and> e = unbound_error k v"
  have old: "?P (ss @ [s]) k \<longleftrightarrow> ?P ss k" if "k < ?n" for k
    using that by (simp add: nth_append declared_before_append)
  have new: "?P (ss @ [s]) ?n \<longleftrightarrow>
               (\<exists>v \<in> set (step_names s). v \<notin> snd (var_walk ss) \<and> e = unbound_error ?n v)"
    using declared_before_append [of ?n ss "[s]"] by (simp add: declared_before_length)
  have "e \<in> set (fst (var_walk (ss @ [s]))) \<longleftrightarrow>
          e \<in> set (fst (var_walk ss))
          \<or> (\<exists>v \<in> set (step_names s). v \<notin> snd (var_walk ss) \<and> e = unbound_error ?n v)"
    unfolding var_walk_snoc by (simp add: image_iff) blast
  also have "\<dots> \<longleftrightarrow> (\<exists>k < ?n. ?P ss k) \<or> ?P (ss @ [s]) ?n"
    unfolding snoc.IH new ..
  also have "\<dots> \<longleftrightarrow> (\<exists>k < ?n. ?P (ss @ [s]) k) \<or> ?P (ss @ [s]) ?n"
    using old by blast
  also have "\<dots> \<longleftrightarrow> (\<exists>k < Suc ?n. ?P (ss @ [s]) k)"
    unfolding less_Suc_eq by blast
  finally show ?case by simp
qed

lemma validateVariableReferences_errors:
  "errors (validateVariableReferences steps) = fst (var_walk steps)"
  by (simp add: validateVariableReferences_def Let_def)

lemma step_names_nonempty: "v \<in> set (step_names s) \<Longrightarrow> v \<noteq> []"
  by (auto simp: step_names_def List.map_filter_def dest: varName_nonempty)

lemma errors_iff:
  "e \<in> set (errors (validateVariableReferences steps)) \<longleftrightarrow>
     (\<exists>k < length steps. \<exists>v \<in> set (step_names (steps ! k)).
        v \<notin> declared_before steps k \<and> e = unbound_error k v)"
  by (simp only: validateVariableReferences_errors walk_errors_iff)

section \<open>Built-in names\<close>

text \<open>
  Claim C8. No diagnostic of \<^verbatim>\<open>validateVariableReferences\<close> names \<^verbatim>\<open>user\<close> or
  \<^verbatim>\<open>trigger\<close>, whatever the steps: both names are in the bound set from the start (the set
  before the first step is exactly these two) and at every later point of the walk.
\<close>

theorem C8_builtins_never_unbound:
  "(\<forall>e \<in> set (errors (validateVariableReferences steps)).
      message e \<noteq> ''Reference to undeclared variable: user''
      \<and> message e \<noteq> ''Reference to undeclared variable: trigger'')
   \<and> declared_before steps 0 = {''user'', ''trigger''}
   \<and> ''user'' \<in> declared_before steps k
   \<and> ''trigger'' \<in> declared_before steps k"
proof -
  have "message e \<noteq> ''Reference to undeclared variable: user''
        \<and> message e \<noteq> ''Reference to undeclared variable: trigger''"
    if "e \<in> set (errors (validateVariableReferences steps))" for e
  proof -
    from that obtain k v where v: "v \<notin> declared_before steps k" and e: "e = unbound_error k v"
      unfolding errors_iff by blast
    from v have "v \<noteq> ''user''" and "v \<noteq> ''trigger''"
      using builtins_declared [of steps k] by auto
    with e show ?thesis by simp
  qed
  moreover have "declared_before steps 0 = {''user'', ''trigger''}"
    by (simp add: declared_before_def)
  ultimately show ?thesis
    using builtins_declared [of steps k] by blast
qed

theorem C8_builtins_never_unbound_witness:
  "step_names \<lparr>step_id = ''s1'', step_module = ''communication.email.send'',
               inputs = [(''to'', JStr ''{{user.email}}''),
                         (''body'', JStr ''{{trigger.text}} {{missing}}'')],
               outputAs = None\<rparr> = [''user'', ''trigger'', ''missing'']
   \<and> errors (validateVariableReferences
        [\<lparr>step_id = ''s1'', step_module = ''communication.email.send'',
          inputs = [(''to'', JStr ''{{user.email}}''),
                    (''body'', JStr ''{{trigger.text}} {{missing}}'')],
          outputAs = None\<rparr>]) = [unbound_error 0 ''missing'']
   \<and> message (unbound_error 0 ''missing'') \<noteq> ''Reference to undeclared variable: user''
   \<and> message (unbound_error 0 ''missing'') \<noteq> ''Reference to undeclared variable: trigger''"
proof -
  let ?s = "\<lparr>step_id = ''s1'', step_module = ''communication.email.send'',
             inputs = [(''to'', JStr ''{{user.email}}''),
                       (''body'', JStr ''{{trigger.text}} {{missing}}'')],
             outputAs = None\<rparr>"
  have n: "step_names ?s = [''user'', ''trigger'', ''missing'']"
    by code_simp
  have e: "errors (validateVariableReferences [?s]) = [unbound_error 0 ''missing'']"
    by code_simp
  from C8_builtins_never_unbound [of "[?s]" 0] n e show ?thesis
    by simp
qed

section \<open>Scope\<close>

text \<open>
  Claim C3. A name referenced in the inputs of step \<open>k\<close> that is not a built-in and that
  no step before \<open>k\<close> declares as its output (so that it is bound, if at all, by step \<open>k\<close>
  itself or by a later one) gets a diagnostic at step \<open>k\<close>. A name that step \<open>j\<close> declares
  gets no diagnostic at any step \<open>m\<close> after \<open>j\<close>. The bound set only grows along the walk.
\<close>

theorem C3_scope:
  "(k < length steps \<and> v \<in> set (step_names (steps ! k)) \<and> v \<noteq> ''user'' \<and> v \<noteq> ''trigger''
      \<and> (\<forall>i < k. outputAs (steps ! i) \<noteq> Some v)
    \<longrightarrow> unbound_error k v \<in> set (errors (validateVariableReferences steps)))
   \<and> (j < m \<and> j < length steps \<and> outputAs (steps ! j) = Some v
    \<longrightarrow> (\<forall>e \<in> set (errors (validateVariableReferences steps)).
           \<not> (path e = ''/config/steps/'' @ show_nat m @ ''/inputs''
              \<and> message e = ''Reference to undeclared variable: '' @ v)))
   \<and> (i \<le> i' \<longrightarrow> declared_before steps i \<subseteq> declared_before steps i')"
proof (intro conjI impI ballI)
  assume a: "k < length steps \<and> v \<in> set (step_names (steps ! k)) \<and> v \<noteq> ''user'' \<and> v \<noteq> ''trigger''
      \<and> (\<forall>i < k. outputAs (steps ! i) \<noteq> Some v)"
  then have "v \<notin> declared_before steps k"
    by (simp add: declared_before_iff)
  with a show "unbound_error k v \<in> set (errors (validateVariableReferences steps))"
    unfolding errors_iff by blast
next
  fix e
  assume b: "j < m \<and> j < length steps \<and> outputAs (steps ! j) = Some v"
    and e: "e \<in> set (errors (validateVariableReferences steps))"
  from e obtain k' v' where k': "v' \<in> set (step_names (steps ! k'))"
      "v' \<notin> declared_before steps k'" "e = unbound_error k' v'"
    unfolding errors_iff by blast
  show "\<not> (path e = ''/config/steps/'' @ show_nat m @ ''/inputs''
              \<and> message e = ''Reference to undeclared variable: '' @ v)"
  proof
    assume "path e = ''/config/steps/'' @ show_nat m @ ''/inputs''
              \<and> message e = ''Reference to undeclared variable: '' @ v"
    with k'(3) have "show_nat k' = show_nat m" and "v' = v" by simp_all
    then have "k' = m" by (simp add: show_nat_inj)
    from k'(1) have "v' \<noteq> []" by (rule step_names_nonempty)
    with b \<open>v' = v\<close> \<open>k' = m\<close> have "v' \<in> declared_before steps k'"
      unfolding declared_before_iff by blast
    with k'(2) show False by simp
  qed
next
  assume "i \<le> i'"
  then show "declared_before steps i \<subseteq> declared_before steps i'"
    by (rule declared_before_mono)
qed

theorem C3_scope_witness:
  "errors (validateVariableReferences
     [\<lparr>step_id = ''a'', step_module = ''utilities.array.first'',
       inputs = [(''items'', JStr ''{{r}}'')], outputAs = Some ''r''\<rparr>,
      \<lparr>step_id = ''b'', step_module = ''utilities.array.first'',
       inputs = [(''items'', JStr ''{{r.items[0]}} {{later}}'')], outputAs = Some ''later''\<rparr>,
      \<lparr>step_id = ''c'', step_module = ''utilities.array.count'',
       inputs = [(''items'', JStr ''{{later}}'')], outputAs = None\<rparr>])
     = [unbound_error 0 ''r'', unbound_error 1 ''later'']
   \<and> unbound_error 1 ''later'' \<in> set [unbound_error 0 ''r'', unbound_error 1 ''later'']
   \<and> \<not> (path (unbound_error 0 ''r'') = ''/config/steps/'' @ show_nat 1 @ ''/inputs''
          \<and> message (unbound_error 0 ''r'') = ''Reference to undeclared variable: '' @ ''r'')
   \<and> \<not> (path (unbound_error 1 ''later'') = ''/config/steps/'' @ show_nat 1 @ ''/inputs''
          \<and> message (unbound_error 1 ''later'') = ''Reference to undeclared variable: '' @ ''r'')
   \<and> declared_before
       [\<lparr>step_id = ''a'', step_module = ''utilities.array.first'',
         inputs = [(''items'', JStr ''{{r}}'')], outputAs = Some ''r''\<rparr>,
        \<lparr>step_id = ''b'', step_module = ''utilities.array.first'',
         inputs = [(''items'', JStr ''{{r.items[0]}} {{later}}'')], outputAs = Some ''later''\<rparr>,
        \<lparr>step_id = ''c'', step_module = ''utilities.array.count'',
         inputs = [(''items'', JStr ''{{later}}'')], outputAs = None\<rparr>] 1
       \<subseteq> declared_before
       [\<lparr>step_id = ''a'', step_module = ''utilities.array.first'',
         inputs = [(''items'', JStr ''{{r}}'')], outputAs = Some ''r''\<rparr>,
        \<lparr>step_id = ''b'', step_module = ''utilities.array.first'',
         inputs = [(''items'', JStr ''{{r.items[0]}} {{later}}'')], outputAs = Some ''later''\<rparr>,
        \<lparr>step_id = ''c'', step_module = ''utilities.array.count'',
         inputs = [(''items'', JStr ''{{later}}'')], outputAs = None\<rparr>] 3"
proof -
  let ?a = "\<lparr>step_id = ''a'', step_module = ''utilities.array.first'',
       inputs = [(''items'', JStr ''{{r}}'')], outputAs = Some ''r''\<rparr>"
  let ?b = "\<lparr>step_id = ''b'', step_module = ''utilities.array.first'',
       inputs = [(''items'', JStr ''{{r.items[0]}} {{later}}'')], outputAs = Some ''later''\<rparr>"
  let ?c = "\<lparr>step_id = ''c'', step_module = ''utilities.array.count'',
       inputs = [(''items'', JStr ''{{later}}'')], outputAs = None\<rparr>"
  have e: "errors (validateVariableReferences [?a, ?b, ?c])
             = [unbound_error 0 ''r'', unbound_error 1 ''later'']"
    by code_simp
  have h1: "(1::nat) < length [?a, ?b, ?c]" by simp
  have h2: "''later'' \<in> set (step_names ([?a, ?b, ?c] ! 1))" by code_simp
  have h3: "''later'' \<noteq> ''user'' \<and> ''later'' \<noteq> ''trigger''" by simp
  have h4: "\<forall>i < (1::nat). outputAs ([?a, ?b, ?c] ! i) \<noteq> Some ''later''" by simp
  have g1: "(0::nat) < 1 \<and> (0::nat) < length [?a, ?b, ?c] \<and> outputAs ([?a, ?b, ?c] ! 0) = Some ''r''"
    by simp
  have m1: "(1::nat) \<le> 3" by simp
  from C3_scope [of 1 "[?a, ?b, ?c]" "''later''" 0 1 1 3] h1 h2 h3 h4 m1
  have p1: "unbound_error 1 ''later'' \<in> set (errors (validateVariableReferences [?a, ?b, ?c]))"
    and p3: "declared_before [?a, ?b, ?c] 1 \<subseteq> declared_before [?a, ?b, ?c] 3"
    by blast+
  from C3_scope [of 1 "[?a, ?b, ?c]" "''r''" 0 1 1 3] g1
  have p2: "\<forall>e \<in> set (errors (validateVariableReferences [?a, ?b, ?c])).
           \<not> (path e = ''/config/steps/'' @ show_nat 1 @ ''/inputs''
              \<and> message e = ''Reference to undeclared variable: '' @ ''r'')"
    by blast
  from p2 e have p2': "\<not> (path (unbound_error 0 ''r'') = ''/config/steps/'' @ show_nat 1 @ ''/inputs''
          \<and> message (unbound_error 0 ''r'') = ''Reference to undeclared variable: '' @ ''r'')"
    "\<not> (path (unbound_error 1 ''later'') = ''/config/steps/'' @ show_nat 1 @ ''/inputs''
          \<and> message (unbound_error 1 ''later'') = ''Reference to undeclared variable: '' @ ''r'')"
    by simp_all
  from p1 p3 e have "unbound_error 1 ''later'' \<in> set [unbound_error 0 ''r'', unbound_error 1 ''later'']"
    by simp
  with p2' p3 e show ?thesis by blast
qed

section \<open>The reference pattern\<close>

lemma star_chars: "y \<in> star {[c] | c. P c} \<longleftrightarrow> (\<forall>c \<in> set y. P c)"
proof
  assume "y \<in> star {[c] | c. P c}"
  then show "\<forall>c \<in> set y. P c"
    by (induction rule: star.induct) auto
next
  assume "\<forall>c \<in> set y. P c"
  then show "y \<in> star {[c] | c. P c}"
  proof (induction y)
    case Nil
    show ?case by (rule star_Nil)
  next
    case (Cons c cs)
    then have "[c] \<in> {[c] | c. P c}" and "cs \<in> star {[c] | c. P c}" by auto
    then have "[c] @ cs \<in> star {[c] | c. P c}" by (rule star_Cons)
    then show ?case by simp
  qed
qed

lemma plus_chars: "x \<in> {a @ y | a y. a \<in> {[c] | c. P c} \<and> y \<in> star {[c] | c. P c}}
                     \<longleftrightarrow> x \<noteq> [] \<and> (\<forall>c \<in> set x. P c)"
proof
  assume "x \<in> {a @ y | a y. a \<in> {[c] | c. P c} \<and> y \<in> star {[c] | c. P c}}"
  then obtain c y where "x = c # y" "P c" "y \<in> star {[c] | c. P c}" by auto
  then show "x \<noteq> [] \<and> (\<forall>c \<in> set x. P c)" by (simp add: star_chars)
next
  assume a: "x \<noteq> [] \<and> (\<forall>c \<in> set x. P c)"
  then obtain c y where x: "x = c # y" by (cases x) auto
  with a have "P c" and "y \<in> star {[c] | c. P c}" by (simp_all add: star_chars)
  with x have "x = [c] @ y \<and> [c] \<in> {[c] | c. P c} \<and> y \<in> star {[c] | c. P c}" by simp
  then show "x \<in> {a @ y | a y. a \<in> {[c] | c. P c} \<and> y \<in> star {[c] | c. P c}}" by blast
qed

lemma lang_word_plus: "x \<in> lang (Plus WordChar) \<longleftrightarrow> x \<noteq> [] \<and> (\<forall>c \<in> set x. is_word c)"
  using plus_chars [of x is_word] by (simp add: lang.simps)

lemma lang_digit_plus: "x \<in> lang (Plus DigitChar) \<longleftrightarrow> x \<noteq> [] \<and> (\<forall>c \<in> set x. is_digit c)"
  using plus_chars [of x is_digit] by (simp add: lang.simps)

lemma lang_Chr_Times: "m \<in> lang (Times (Chr c) b) \<longleftrightarrow> (\<exists>y. m = c # y \<and> y \<in> lang b)"
  by (auto simp: lang.simps)

lemma lang_Times: "m \<in> lang (Times a b) \<longleftrightarrow> (\<exists>x y. m = x @ y \<and> x \<in> lang a \<and> y \<in> lang b)"
  by (auto simp: lang.simps)

lemma lang_Chr: "m \<in> lang (Chr c) \<longleftrightarrow> m = [c]"
  by (simp add: lang.simps)

lemma lang_Star: "lang (Star a) = star (lang a)"
  by (simp add: lang.simps)

lemma lang_dot_part:
  "x \<in> lang dot_part \<longleftrightarrow> (\<exists>w. x = CHR ''.'' # w \<and> w \<noteq> [] \<and> (\<forall>c \<in> set w. is_word c))"
  by (simp add: dot_part_def lang_Chr_Times lang_word_plus)

lemma lang_index_part:
  "x \<in> lang index_part \<longleftrightarrow>
     (\<exists>ds. x = CHR ''['' # ds @ [CHR '']''] \<and> ds \<noteq> [] \<and> (\<forall>c \<in> set ds. is_digit c))"
  by (auto simp: index_part_def lang_Chr_Times lang_Times lang_Chr lang_digit_plus)

lemma lang_ref_regex:
  "m \<in> lang ref_regex \<longleftrightarrow>
     (\<exists>w d i. m = ''{{'' @ w @ d @ i @ ''}}'' \<and> w \<noteq> [] \<and> (\<forall>c \<in> set w. is_word c)
        \<and> d \<in> star (lang dot_part) \<and> i \<in> star (lang index_part))"
proof -
  have tail: "y \<in> lang (Times (Chr CHR ''}'') (Chr CHR ''}'')) \<longleftrightarrow> y = ''}}''" for y
    by (auto simp: lang_Chr_Times lang_Chr)
  have t3: "y \<in> lang (Times (Star index_part) (Times (Chr CHR ''}'') (Chr CHR ''}'')))
              \<longleftrightarrow> (\<exists>i. y = i @ ''}}'' \<and> i \<in> star (lang index_part))" for y
    unfolding lang_Times [of y "Star index_part"] tail lang_Star by blast
  have t2: "y \<in> lang (Times (Star dot_part)
                (Times (Star index_part) (Times (Chr CHR ''}'') (Chr CHR ''}''))))
              \<longleftrightarrow> (\<exists>d i. y = d @ i @ ''}}'' \<and> d \<in> star (lang dot_part)
                     \<and> i \<in> star (lang index_part))" for y
    unfolding lang_Times [of y "Star dot_part"] t3 lang_Star by blast
  have t1: "y \<in> lang (Times (Plus WordChar) (Times (Star dot_part)
                (Times (Star index_part) (Times (Chr CHR ''}'') (Chr CHR ''}'')))))
              \<longleftrightarrow> (\<exists>w d i. y = w @ d @ i @ ''}}'' \<and> w \<noteq> [] \<and> (\<forall>c \<in> set w. is_word c)
                     \<and> d \<in> star (lang dot_part) \<and> i \<in> star (lang index_part))" for y
    unfolding lang_Times [of y "Plus WordChar"] t2 lang_word_plus by blast
  have "m \<in> lang ref_regex \<longleftrightarrow>
          (\<exists>y. m = ''{{'' @ y
             \<and> y \<in> lang (Times (Plus WordChar) (Times (Star dot_part)
                   (Times (Star index_part) (Times (Chr CHR ''}'') (Chr CHR ''}''))))))"
    by (auto simp: ref_regex_def lang_Chr_Times)
  then show ?thesis
    unfolding t1 by blast
qed

lemma not_word_chars [simp]:
  "\<not> is_word CHR ''.''" "\<not> is_word CHR ''[''" "\<not> is_word CHR '']''" "\<not> is_word CHR ''}''"
  "\<not> is_word CHR ''{''"
  by (simp_all add: is_word_def)

lemma not_digit_chars [simp]:
  "\<not> is_digit CHR '']''" "\<not> is_digit CHR ''}''"
  by (simp_all add: is_digit_def)

lemma while_append:
  assumes "\<forall>c \<in> set w. P c" and "t \<noteq> []" and "\<not> P (hd t)"
  shows "takeWhile P (w @ t) = w" and "dropWhile P (w @ t) = t"
proof -
  from assms(2) obtain c r where t: "t = c # r" by (cases t) auto
  with assms(3) have "\<not> P c" by simp
  with assms(1) t show "takeWhile P (w @ t) = w" and "dropWhile P (w @ t) = t"
    by (simp_all add: takeWhile_append2 dropWhile_append2)
qed

lemma star_dot_hd: "y \<in> star (lang dot_part) \<Longrightarrow> y = [] \<or> hd y = CHR ''.''"
  by (induction rule: star.induct) (auto simp: lang_dot_part)

lemma star_index_hd: "y \<in> star (lang index_part) \<Longrightarrow> y = [] \<or> hd y = CHR ''[''"
  by (induction rule: star.induct) (auto simp: lang_index_part)

lemma dotted_sound: "dotted s = (d, rest) \<Longrightarrow> s = d @ rest \<and> d \<in> star (lang dot_part)"
proof (induction s arbitrary: d rest rule: dotted.induct)
  case (1 s)
  show ?case
  proof (cases s)
    case Nil
    with "1.prems" show ?thesis by (simp add: dotted.simps star_Nil)
  next
    case (Cons c r)
    show ?thesis
    proof (cases "c = CHR ''.'' \<and> takeWhile is_word r \<noteq> []")
      case False
      with Cons have "dotted s = ([], s)"
        by (subst dotted.simps) auto
      with "1.prems" show ?thesis
        by (auto simp: star_Nil)
    next
      case True
      obtain d' rest' where rec: "dotted (dropWhile is_word r) = (d', rest')"
        by (cases "dotted (dropWhile is_word r)") auto
      from "1.IH" [OF Cons True rec]
      have ih: "dropWhile is_word r = d' @ rest'" "d' \<in> star (lang dot_part)" by simp_all
      from True Cons rec have "dotted s = (c # takeWhile is_word r @ d', rest')"
        by (subst dotted.simps) simp
      with "1.prems" have d: "d = c # takeWhile is_word r @ d'" and r: "rest = rest'"
        by simp_all
      have "c # takeWhile is_word r \<in> lang dot_part"
        using True by (auto simp: lang_dot_part dest: set_takeWhileD)
      then have "(c # takeWhile is_word r) @ d' \<in> star (lang dot_part)"
        using ih(2) by (rule star_Cons)
      moreover have "s = (c # takeWhile is_word r @ d') @ rest'"
        using Cons ih(1) by (metis append.assoc append_Cons takeWhile_dropWhile_id)
      ultimately show ?thesis using d r by simp
    qed
  qed
qed

lemma dotted_complete:
  assumes "d \<in> star (lang dot_part)" and "t \<noteq> []" and "\<not> is_word (hd t)" and "hd t \<noteq> CHR ''.''"
  shows "dotted (d @ t) = (d, t)"
  using assms
proof (induction rule: star.induct)
  case star_Nil
  then obtain c r where "t = c # r" "c \<noteq> CHR ''.''" by (cases t) auto
  then show ?case by (subst dotted.simps) simp
next
  case (star_Cons x y)
  then obtain w where x: "x = CHR ''.'' # w" "w \<noteq> []" "\<forall>c \<in> set w. is_word c"
    by (auto simp: lang_dot_part)
  have yt: "y @ t \<noteq> []" "\<not> is_word (hd (y @ t))"
    using star_Cons.prems star_dot_hd [OF star_Cons.hyps(2)] by (auto simp: hd_append)
  have tw: "takeWhile is_word (w @ y @ t) = w" and dw: "dropWhile is_word (w @ y @ t) = y @ t"
    using while_append [OF x(3) yt] by simp_all
  have ih: "dotted (y @ t) = (y, t)"
    using star_Cons.IH star_Cons.prems by simp
  show ?case
    using x tw dw ih by (subst dotted.simps) simp
qed

lemma indexed_sound: "indexed s = (i, rest) \<Longrightarrow> s = i @ rest \<and> i \<in> star (lang index_part)"
proof (induction s arbitrary: i rest rule: indexed.induct)
  case (1 s)
  show ?case
  proof (cases s)
    case Nil
    with "1.prems" show ?thesis by (simp add: indexed.simps star_Nil)
  next
    case (Cons c r)
    show ?thesis
    proof (cases "c = CHR ''['' \<and> takeWhile is_digit r \<noteq> []")
      case False
      with Cons have "indexed s = ([], s)"
        by (subst indexed.simps) auto
      with "1.prems" show ?thesis
        by (auto simp: star_Nil)
    next
      case True
      show ?thesis
      proof (cases "dropWhile is_digit r")
        case Nil
        with True \<open>s = c # r\<close> have "indexed s = ([], s)"
          by (subst indexed.simps) (simp del: dropWhile_eq_Nil_conv)
        with "1.prems" show ?thesis
          by (auto simp: star_Nil)
      next
        case (Cons c' r')
        note dw = Cons
        show ?thesis
        proof (cases "c' = CHR '']''")
          case False
          with True dw \<open>s = c # r\<close> have "indexed s = ([], s)"
            by (subst indexed.simps) simp
          with "1.prems" show ?thesis
            by (auto simp: star_Nil)
        next
          case close: True
          obtain i' rest' where rec: "indexed r' = (i', rest')"
            by (cases "indexed r'") auto
          from "1.IH" [OF \<open>s = c # r\<close> True dw close rec]
          have ih: "r' = i' @ rest'" "i' \<in> star (lang index_part)" by simp_all
          from True dw close rec \<open>s = c # r\<close>
          have "indexed s = (c # takeWhile is_digit r @ c' # i', rest')"
            by (subst indexed.simps) simp
          with "1.prems" have i: "i = c # takeWhile is_digit r @ c' # i'" and r: "rest = rest'"
            by simp_all
          have "c # takeWhile is_digit r @ [c'] \<in> lang index_part"
            using True close by (auto simp: lang_index_part dest: set_takeWhileD)
          then have "(c # takeWhile is_digit r @ [c']) @ i' \<in> star (lang index_part)"
            using ih(2) by (rule star_Cons)
          moreover have "r = takeWhile is_digit r @ c' # r'"
            using dw by (metis takeWhile_dropWhile_id)
          then have "s = (c # takeWhile is_digit r @ c' # i') @ rest'"
            using \<open>s = c # r\<close> ih(1) by simp
          ultimately show ?thesis using i r by simp
        qed
      qed
    qed
  qed
qed

lemma indexed_complete:
  assumes "i \<in> star (lang index_part)" and "t \<noteq> []" and "hd t \<noteq> CHR ''[''"
  shows "indexed (i @ t) = (i, t)"
  using assms
proof (induction rule: star.induct)
  case star_Nil
  then obtain c r where "t = c # r" "c \<noteq> CHR ''[''" by (cases t) auto
  then show ?case by (subst indexed.simps) simp
next
  case (star_Cons x y)
  then obtain ds where x: "x = CHR ''['' # ds @ [CHR '']'']" "ds \<noteq> []" "\<forall>c \<in> set ds. is_digit c"
    by (auto simp: lang_index_part)
  have "CHR '']'' # y @ t \<noteq> []" and "\<not> is_digit (hd (CHR '']'' # y @ t))" by simp_all
  from while_append [OF x(3) this]
  have tw: "takeWhile is_digit (ds @ CHR '']'' # y @ t) = ds"
    and dw: "dropWhile is_digit (ds @ CHR '']'' # y @ t) = CHR '']'' # y @ t"
    by simp_all
  have ih: "indexed (y @ t) = (y, t)"
    using star_Cons.IH star_Cons.prems by simp
  show ?case
    using x tw dw ih by (subst indexed.simps) simp
qed

lemma ref_match_sound:
  assumes "ref_match s = Some m"
  shows "m \<in> lang ref_regex \<and> (\<exists>q. s = m @ q)"
proof -
  from assms obtain r where s: "s = CHR ''{'' # CHR ''{'' # r" and w: "takeWhile is_word r \<noteq> []"
    by (auto simp: ref_match_def split: list.splits if_splits)
  obtain d r1 where d: "dotted (dropWhile is_word r) = (d, r1)"
    by (cases "dotted (dropWhile is_word r)") auto
  obtain i r2 where i: "indexed r1 = (i, r2)"
    by (cases "indexed r1") auto
  from assms s w d i obtain q where r2: "r2 = CHR ''}'' # CHR ''}'' # q"
    and m: "m = ''{{'' @ takeWhile is_word r @ d @ i @ ''}}''"
    by (auto simp: ref_match_def split: list.splits if_splits)
  from dotted_sound [OF d] have d': "dropWhile is_word r = d @ r1" "d \<in> star (lang dot_part)"
    by simp_all
  from indexed_sound [OF i] have i': "r1 = i @ r2" "i \<in> star (lang index_part)"
    by simp_all
  have "\<forall>c \<in> set (takeWhile is_word r). is_word c"
    by (auto dest: set_takeWhileD)
  with w d'(2) i'(2) m have "m \<in> lang ref_regex"
    unfolding lang_ref_regex by blast
  moreover have "r = takeWhile is_word r @ d @ i @ ''}}'' @ q"
    using d'(1) i'(1) r2 by (metis append_Cons append_Nil takeWhile_dropWhile_id)
  then have "s = m @ q"
    using s m by simp
  ultimately show ?thesis by blast
qed

lemma ref_match_complete:
  assumes "m \<in> lang ref_regex"
  shows "ref_match (m @ q) = Some m"
proof -
  from assms obtain w d i where m: "m = ''{{'' @ w @ d @ i @ ''}}''" and w: "w \<noteq> []" "\<forall>c \<in> set w. is_word c"
    and d: "d \<in> star (lang dot_part)" and i: "i \<in> star (lang index_part)"
    unfolding lang_ref_regex by blast
  let ?t2 = "''}}'' @ q"
  let ?t1 = "i @ ?t2"
  let ?t0 = "d @ ?t1"
  have t1: "?t1 \<noteq> []" "\<not> is_word (hd ?t1)" "hd ?t1 \<noteq> CHR ''.''"
    using star_index_hd [OF i] by (auto simp: hd_append)
  have t0: "?t0 \<noteq> []" "\<not> is_word (hd ?t0)"
    using star_dot_hd [OF d] t1 by (auto simp: hd_append)
  have tw: "takeWhile is_word (w @ ?t0) = w" and dw: "dropWhile is_word (w @ ?t0) = ?t0"
    using while_append [OF w(2) t0] by simp_all
  have dd: "dotted ?t0 = (d, ?t1)"
    using dotted_complete [OF d t1] by simp
  have ii: "indexed ?t1 = (i, ?t2)"
    using indexed_complete [OF i, of ?t2] by simp
  have "m @ q = CHR ''{'' # CHR ''{'' # (w @ ?t0)"
    using m by simp
  then show ?thesis
    using tw dw dd ii w(1) m by (simp add: ref_match_def)
qed

lemma ref_match_iff: "ref_match s = Some m \<longleftrightarrow> m \<in> lang ref_regex \<and> (\<exists>q. s = m @ q)"
  using ref_match_sound ref_match_complete by blast

lemma global_match_sound:
  "r \<in> set (global_match s) \<Longrightarrow> r \<in> lang ref_regex \<and> (\<exists>p q. s = p @ r @ q)"
proof (induction s rule: global_match.induct)
  case (1 s)
  show ?case
  proof (cases "s = []")
    case True
    with "1.prems" show ?thesis by (simp add: global_match.simps)
  next
    case False
    show ?thesis
    proof (cases "ref_match s")
      case None
      with False "1.prems" have "r \<in> set (global_match (tl s))"
        by (simp add: global_match.simps [of s])
      from "1.IH"(1) [OF False None this] obtain p q where
        "r \<in> lang ref_regex" "tl s = p @ r @ q" by blast
      moreover from False have "s = hd s # tl s" by simp
      ultimately have "r \<in> lang ref_regex \<and> s = (hd s # p) @ r @ q" by simp
      then show ?thesis by blast
    next
      case (Some m)
      with False "1.prems" have "r = m \<or> r \<in> set (global_match (drop (max 1 (length m)) s))"
        by (simp add: global_match.simps [of s])
      then show ?thesis
      proof
        assume "r = m"
        with ref_match_sound [OF Some] obtain q where "r \<in> lang ref_regex" "s = [] @ r @ q"
          by auto
        then show ?thesis by blast
      next
        assume "r \<in> set (global_match (drop (max 1 (length m)) s))"
        from "1.IH"(2) [OF False Some this] obtain p q where
          "r \<in> lang ref_regex" "drop (max 1 (length m)) s = p @ r @ q" by blast
        then have "r \<in> lang ref_regex \<and> s = (take (max 1 (length m)) s @ p) @ r @ q"
          by (metis append.assoc append_take_drop_id)
        then show ?thesis by blast
      qed
    qed
  qed
qed

lemma star_dot_chars: "d \<in> star (lang dot_part) \<Longrightarrow> CHR ''{'' \<notin> set d"
proof (induction rule: star.induct)
  case star_Nil
  show ?case by simp
next
  case (star_Cons x y)
  then obtain w where x: "x = CHR ''.'' # w" "\<forall>c \<in> set w. is_word c"
    by (auto simp: lang_dot_part)
  from x(2) have "CHR ''{'' \<notin> set w"
    using not_word_chars(5) by blast
  with x(1) star_Cons.IH show ?case by simp
qed

lemma star_index_chars: "i \<in> star (lang index_part) \<Longrightarrow> CHR ''{'' \<notin> set i"
proof (induction rule: star.induct)
  case star_Nil
  show ?case by simp
next
  case (star_Cons x y)
  then obtain ds where x: "x = CHR ''['' # ds @ [CHR '']'']" "\<forall>c \<in> set ds. is_digit c"
    by (auto simp: lang_index_part)
  have "\<not> is_digit CHR ''{''" by (simp add: is_digit_def)
  with x(2) have "CHR ''{'' \<notin> set ds" by blast
  with x(1) star_Cons.IH show ?case by simp
qed

lemma lang_ref_shape:
  assumes "m \<in> lang ref_regex"
  shows "\<exists>b. m = CHR ''{'' # CHR ''{'' # b \<and> b \<noteq> [] \<and> CHR ''{'' \<notin> set b"
proof -
  from assms obtain w d i where m: "m = ''{{'' @ w @ d @ i @ ''}}''" and w: "w \<noteq> []" "\<forall>c \<in> set w. is_word c"
    and d: "d \<in> star (lang dot_part)" and i: "i \<in> star (lang index_part)"
    unfolding lang_ref_regex by blast
  have "CHR ''{'' \<notin> set w" using w(2) not_word_chars(5) by blast
  with star_dot_chars [OF d] star_index_chars [OF i]
  have "CHR ''{'' \<notin> set (w @ d @ i @ ''}}'')" by simp
  with m w(1) show ?thesis by simp
qed

text \<open>A match never runs into the start of a later reference.\<close>

lemma no_overlap:
  assumes "CHR ''{'' \<notin> set b" and "b \<noteq> []"
    and "(CHR ''{'' # CHR ''{'' # b) @ q' = p @ CHR ''{'' # CHR ''{'' # t"
  shows "p = [] \<or> length (CHR ''{'' # CHR ''{'' # b) \<le> length p"
proof (cases p)
  case Nil
  then show ?thesis by simp
next
  case (Cons c1 p1)
  show ?thesis
  proof (cases p1)
    case Nil
    with Cons assms(3) have "b @ q' = CHR ''{'' # t" by simp
    with assms(2) have "hd b = CHR ''{''" by (cases b) auto
    with assms(1,2) show ?thesis by (cases b) auto
  next
    case (Cons c2 p2)
    with \<open>p = c1 # p1\<close> assms(3) have eq: "b @ q' = p2 @ CHR ''{'' # CHR ''{'' # t" by simp
    show ?thesis
    proof (cases "length b \<le> length p2")
      case True
      with Cons \<open>p = c1 # p1\<close> show ?thesis by simp
    next
      case False
      then have lt: "length p2 < length b" by simp
      then have "b ! length p2 = (b @ q') ! length p2" by (simp add: nth_append)
      also have "\<dots> = CHR ''{''" unfolding eq by simp
      finally have "CHR ''{'' \<in> set b" using lt by (metis nth_mem)
      with assms(1) show ?thesis by simp
    qed
  qed
qed

lemma global_match_complete:
  assumes "r \<in> lang ref_regex"
  shows "s = p @ r @ q \<Longrightarrow> r \<in> set (global_match s)"
proof (induction s arbitrary: p rule: global_match.induct)
  case (1 s)
  from lang_ref_shape [OF assms] obtain t where r: "r = CHR ''{'' # CHR ''{'' # t" by blast
  with "1.prems" have ne: "s \<noteq> []" by simp
  show ?case
  proof (cases "ref_match s")
    case None
    have "p \<noteq> []"
    proof
      assume "p = []"
      with "1.prems" ref_match_complete [OF assms, of q] None show False by simp
    qed
    with "1.prems" have "tl s = tl p @ r @ q" by simp
    from "1.IH"(1) [OF ne None this] ne None show ?thesis
      by (simp add: global_match.simps [of s])
  next
    case (Some m)
    show ?thesis
    proof (cases "p = []")
      case True
      with "1.prems" ref_match_complete [OF assms, of q] Some have "m = r" by simp
      with ne Some show ?thesis by (simp add: global_match.simps [of s])
    next
      case False
      from ref_match_sound [OF Some] obtain q' where m: "m \<in> lang ref_regex" "s = m @ q'" by blast
      from lang_ref_shape [OF m(1)] obtain b where
        b: "m = CHR ''{'' # CHR ''{'' # b" "b \<noteq> []" "CHR ''{'' \<notin> set b" by blast
      from m(2) "1.prems" r b(1) have "(CHR ''{'' # CHR ''{'' # b) @ q' = p @ CHR ''{'' # CHR ''{'' # (t @ q)"
        by simp
      from no_overlap [OF b(3) b(2) this] False b(1) have le: "length m \<le> length p" by simp
      from b(1) have "max 1 (length m) = length m" by simp
      moreover from le "1.prems" have "drop (length m) s = drop (length m) p @ r @ q" by simp
      ultimately have "drop (max 1 (length m)) s = drop (length m) p @ r @ q" by simp
      from "1.IH"(2) [OF ne Some this] ne Some show ?thesis
        by (simp add: global_match.simps [of s])
    qed
  qed
qed

lemma global_match_iff:
  "r \<in> set (global_match s) \<longleftrightarrow> r \<in> lang ref_regex \<and> (\<exists>p q. s = p @ r @ q)"
  using global_match_sound global_match_complete by blast

text \<open>The name examined for a reference is its leading identifier.\<close>

lemma varName_of_reference:
  assumes "r \<in> lang ref_regex"
  shows "\<exists>w t. r = ''{{'' @ w @ t \<and> w \<noteq> [] \<and> (\<forall>c \<in> set w. is_word c)
           \<and> t \<noteq> [] \<and> \<not> is_word (hd t) \<and> varName r = Some w"
proof -
  from assms obtain w d i where r: "r = ''{{'' @ w @ d @ i @ ''}}''" and w: "w \<noteq> []" "\<forall>c \<in> set w. is_word c"
    and d: "d \<in> star (lang dot_part)" and i: "i \<in> star (lang index_part)"
    unfolding lang_ref_regex by blast
  let ?t = "d @ i @ ''}}''"
  have t: "?t \<noteq> []" "\<not> is_word (hd ?t)"
    using star_dot_hd [OF d] star_index_hd [OF i] by (auto simp: hd_append)
  have "takeWhile is_word (w @ ?t) = w"
    using while_append(1) [OF w(2) t] .
  with w(1) r have "varName r = Some w"
    by simp
  with r w t show ?thesis
    by blast
qed

lemma step_names_source:
  assumes "v \<in> set (step_names s)"
  shows "\<exists>r \<in> set (global_match (JSON_stringify (JObj (inputs s)))).
           r \<in> lang ref_regex \<and> varName r = Some v"
proof -
  from assms obtain r where "r \<in> set (global_match (JSON_stringify (JObj (inputs s))))"
      and "varName r = Some v"
    by (auto simp: step_names_def List.map_filter_def)
  then show ?thesis
    using global_match_sound by blast
qed

text \<open>
  The names that a step refers to are the leading identifiers of the strings of the
  pattern that occur in its serialized inputs.
\<close>

lemma step_names_iff:
  "v \<in> set (step_names s) \<longleftrightarrow>
     (\<exists>r p q. r \<in> lang ref_regex \<and> JSON_stringify (JObj (inputs s)) = p @ r @ q
        \<and> varName r = Some v)"
proof
  assume "v \<in> set (step_names s)"
  from step_names_source [OF this] show
    "\<exists>r p q. r \<in> lang ref_regex \<and> JSON_stringify (JObj (inputs s)) = p @ r @ q \<and> varName r = Some v"
    using global_match_sound by blast
next
  assume "\<exists>r p q. r \<in> lang ref_regex \<and> JSON_stringify (JObj (inputs s)) = p @ r @ q
            \<and> varName r = Some v"
  then obtain r p q where r: "r \<in> lang ref_regex" "JSON_stringify (JObj (inputs s)) = p @ r @ q"
      "varName r = Some v"
    by blast
  from global_match_complete [OF r(1,2)] r(3) show "v \<in> set (step_names s)"
    by (force simp: step_names_def List.map_filter_def)
qed

text \<open>
  Claim C10. The references examined are exactly the strings of the pattern
  \<^verbatim>\<open>{{identifier(.identifier)*([digits])*}}\<close>: the strings that the global match extracts
  are the substrings of the serialized inputs that belong to the language of the pattern,
  and no others; at a given position the match succeeds exactly when a prefix belongs to
  that language, and returns it; and every diagnostic stems from such an extracted string,
  so a step whose serialized inputs hold no string of the language gets no diagnostic,
  whatever is bound.
\<close>

theorem C10_reference_grammar:
  "(r \<in> set (global_match s) \<longleftrightarrow> r \<in> lang ref_regex \<and> (\<exists>p q. s = p @ r @ q))
   \<and> (ref_match s = Some m \<longleftrightarrow> m \<in> lang ref_regex \<and> (\<exists>q. s = m @ q))
   \<and> (\<forall>e \<in> set (errors (validateVariableReferences steps)).
         \<exists>k < length steps. \<exists>r \<in> set (global_match (JSON_stringify (JObj (inputs (steps ! k))))).
           r \<in> lang ref_regex \<and> (\<exists>v. varName r = Some v \<and> e = unbound_error k v))
   \<and> (global_match (JSON_stringify (JObj (inputs (steps ! k)))) = [] \<longrightarrow>
         (\<forall>e \<in> set (errors (validateVariableReferences steps)).
            path e \<noteq> ''/config/steps/'' @ show_nat k @ ''/inputs''))"
proof -
  have p1: "r \<in> set (global_match s) \<longleftrightarrow> r \<in> lang ref_regex \<and> (\<exists>p q. s = p @ r @ q)"
    by (rule global_match_iff)
  have p3: "\<exists>k < length steps. \<exists>r \<in> set (global_match (JSON_stringify (JObj (inputs (steps ! k))))).
           r \<in> lang ref_regex \<and> (\<exists>v. varName r = Some v \<and> e = unbound_error k v)"
    if "e \<in> set (errors (validateVariableReferences steps))" for e
  proof -
    from that obtain j v where j: "j < length steps" "v \<in> set (step_names (steps ! j))"
        "e = unbound_error j v"
      unfolding errors_iff by blast
    from step_names_source [OF j(2)] j(1,3) show ?thesis by blast
  qed
  have p4: "path e \<noteq> ''/config/steps/'' @ show_nat k @ ''/inputs''"
    if "global_match (JSON_stringify (JObj (inputs (steps ! k)))) = []"
      and "e \<in> set (errors (validateVariableReferences steps))" for e
  proof
    assume pe: "path e = ''/config/steps/'' @ show_nat k @ ''/inputs''"
    from p3 [OF that(2)] obtain j r v where
      j: "r \<in> set (global_match (JSON_stringify (JObj (inputs (steps ! j)))))" "e = unbound_error j v"
      by blast
    from pe j(2) have "show_nat j = show_nat k" by simp
    then have "j = k" by (rule show_nat_inj)
    with j(1) that(1) show False by simp
  qed
  from p1 p3 p4 show ?thesis
    unfolding ref_match_iff by blast
qed

theorem C10_reference_grammar_witness:
  "global_match (JSON_stringify (JObj [(''a'', JStr ''{{my-var}} {{ r }} {{a[0].b}} {{ok.x[1]}}'')]))
     = [''{{ok.x[1]}}'']
   \<and> ''{{ok.x[1]}}'' \<in> lang ref_regex
   \<and> ''{{my-var}}'' \<notin> lang ref_regex
   \<and> ''{{ r }}'' \<notin> lang ref_regex
   \<and> ''{{a[0].b}}'' \<notin> lang ref_regex
   \<and> global_match (JSON_stringify (JObj [(''a'', JStr ''{{my-var}} {{ r }} {{a[0].b}}'')])) = []
   \<and> errors (validateVariableReferences
        [\<lparr>step_id = ''s1'', step_module = ''utilities.array.first'',
          inputs = [(''a'', JStr ''{{my-var}} {{ r }} {{a[0].b}}'')], outputAs = None\<rparr>,
         \<lparr>step_id = ''s2'', step_module = ''utilities.array.first'',
          inputs = [(''a'', JStr ''{{my-var}} {{ r }} {{a[0].b}} {{ok.x[1]}}'')], outputAs = None\<rparr>])
       = [unbound_error 1 ''ok'']
   \<and> path (unbound_error 1 ''ok'') \<noteq> ''/config/steps/'' @ show_nat 0 @ ''/inputs''"
proof -
  let ?bad = "[(''a'', JStr ''{{my-var}} {{ r }} {{a[0].b}}'')]"
  let ?good = "[(''a'', JStr ''{{my-var}} {{ r }} {{a[0].b}} {{ok.x[1]}}'')]"
  let ?s1 = "\<lparr>step_id = ''s1'', step_module = ''utilities.array.first'', inputs = ?bad, outputAs = None\<rparr>"
  let ?s2 = "\<lparr>step_id = ''s2'', step_module = ''utilities.array.first'', inputs = ?good, outputAs = None\<rparr>"
  have g: "global_match (JSON_stringify (JObj ?good)) = [''{{ok.x[1]}}'']"
    by code_simp
  have b: "global_match (JSON_stringify (JObj ?bad)) = []"
    by code_simp
  have e: "errors (validateVariableReferences [?s1, ?s2]) = [unbound_error 1 ''ok'']"
    by code_simp
  have n1: "ref_match ''{{my-var}}'' \<noteq> Some ''{{my-var}}''" by code_simp
  have n2: "ref_match ''{{ r }}'' \<noteq> Some ''{{ r }}''" by code_simp
  have n3: "ref_match ''{{a[0].b}}'' \<noteq> Some ''{{a[0].b}}''" by code_simp
  from C10_reference_grammar [where r = "''{{ok.x[1]}}''" and s = "JSON_stringify (JObj ?good)"] g
  have a1: "''{{ok.x[1]}}'' \<in> lang ref_regex" by simp
  have b0: "global_match (JSON_stringify (JObj (inputs ([?s1, ?s2] ! 0)))) = []"
    using b by simp
  from C10_reference_grammar [where steps = "[?s1, ?s2]" and k = 0] b0
  have "\<forall>e \<in> set (errors (validateVariableReferences [?s1, ?s2])).
          path e \<noteq> ''/config/steps/'' @ show_nat 0 @ ''/inputs''"
    by blast
  with e have a5: "path (unbound_error 1 ''ok'') \<noteq> ''/config/steps/'' @ show_nat 0 @ ''/inputs''"
    by simp
  from C10_reference_grammar [where s = "''{{my-var}}''" and m = "''{{my-var}}''"] n1
  have a2: "''{{my-var}}'' \<notin> lang ref_regex" by blast
  from C10_reference_grammar [where s = "''{{ r }}''" and m = "''{{ r }}''"] n2
  have a3: "''{{ r }}'' \<notin> lang ref_regex" by blast
  from C10_reference_grammar [where s = "''{{a[0].b}}''" and m = "''{{a[0].b}}''"] n3
  have a4: "''{{a[0].b}}'' \<notin> lang ref_regex" by blast
  from g b e a1 a2 a3 a4 a5 show ?thesis by simp
qed

end
